theory Spec2Isabelle
  imports
    Complex_Main
    "HOL-Library.List_Lexorder"
    "HOL-Library.Product_Lexorder"
    "HOL-Library.Multiset"
    "HOL-Library.AList"
begin

section \<open>Python values\<close>

text \<open>
  A Python \<open>str\<close> is a sequence of Unicode code points; \<open>len\<close> counts code points.
  Code points are natural numbers here, and a string is a list of them.  String
  literals of the source are written \<open>ustr ''...''\<close> when they are ASCII.
\<close>

type_synonym cp = nat
type_synonym ustring = "cp list"

definition ustr :: "string \<Rightarrow> ustring" where
  "ustr s = map of_char s"

text \<open>
  The registry is the result of \<open>resp.json()\<close>: values are \<open>None\<close>, booleans, integers,
  floats, strings, lists and dictionaries with string keys.  A finite float is kept as
  the rational number it denotes (only its truth value is ever used).  A dictionary is an
  association list in insertion order; a well-formed one has distinct keys, and lookup
  takes the first binding.
\<close>

datatype pyval =
    PNone
  | PBool bool
  | PInt int
  | PFloat rat
  | PStr ustring
  | PList "pyval list"
  | PDict "(ustring \<times> pyval) list"

type_synonym pydict = "(ustring \<times> pyval) list"

datatype error = AttributeError | IndexError | ValueError

text \<open>Truth value of a Python object, as used by \<open>x or {}\<close>.\<close>

fun truthy :: "pyval \<Rightarrow> bool" where
  "truthy PNone = False"
| "truthy (PBool b) = b"
| "truthy (PInt i) = (i \<noteq> 0)"
| "truthy (PFloat r) = (r \<noteq> 0)"
| "truthy (PStr s) = (s \<noteq> [])"
| "truthy (PList xs) = (xs \<noteq> [])"
| "truthy (PDict d) = (d \<noteq> [])"

definition py_or :: "pyval \<Rightarrow> pyval \<Rightarrow> pyval" where
  "py_or v d = (if truthy v then v else d)"

text \<open>\<open>d.get(k, default)\<close> on a dictionary.\<close>

definition dict_get :: "pydict \<Rightarrow> ustring \<Rightarrow> pyval \<Rightarrow> pyval" where
  "dict_get d k dflt = (case map_of d k of Some v \<Rightarrow> v | None \<Rightarrow> dflt)"

text \<open>
  \<open>x.get(k, default)\<close> on an arbitrary value: only dictionaries have a \<open>get\<close> attribute,
  every other value raises \<open>AttributeError\<close>.
\<close>

fun py_get :: "pyval \<Rightarrow> ustring \<Rightarrow> pyval \<Rightarrow> error + pyval" where
  "py_get (PDict d) k dflt = Inr (dict_get d k dflt)"
| "py_get v k dflt = Inl AttributeError"

section \<open>The Unicode character database\<close>

text \<open>
  \<open>normalize_name\<close> calls \<open>unicodedata.normalize\<close>, \<open>unicodedata.combining\<close>,
  \<open>str.lower\<close>, \<open>str.isalnum\<close>, \<open>str.isspace\<close> and \<open>str.split\<close>.  All of them are
  table lookups in the Unicode character database of the interpreter, which is not part
  of the repository: the tables are a parameter.

  \<^item> \<open>decomposition c\<close>: the full compatibility decomposition of \<open>c\<close> (\<open>[c]\<close> when it has none);
  \<^item> \<open>combining c\<close>: the canonical combining class, \<open>unicodedata.combining\<close>;
  \<^item> \<open>tolower c\<close>: the full lower-case mapping;
  \<^item> \<open>cased c\<close>, \<open>case_ignorable c\<close>: the derived properties read by \<open>str.lower\<close> at a
    capital sigma;
  \<^item> \<open>isalnum c\<close>, \<open>isspace c\<close>: \<open>str.isalnum\<close> and \<open>str.isspace\<close> of a single character.
\<close>

record ucd =
  decomposition :: "cp \<Rightarrow> ustring"
  combining :: "cp \<Rightarrow> nat"
  tolower :: "cp \<Rightarrow> ustring"
  cased :: "cp \<Rightarrow> bool"
  case_ignorable :: "cp \<Rightarrow> bool"
  isalnum :: "cp \<Rightarrow> bool"
  isspace :: "cp \<Rightarrow> bool"

text \<open>
  Normalization form KD: every character is replaced by its full compatibility
  decomposition, then the canonical ordering algorithm sorts every run of characters
  of non-zero combining class by class, stably.  \<open>canonical_insert\<close> moves one character
  to the right past characters of a smaller non-zero class.
\<close>

fun canonical_insert :: "(cp \<Rightarrow> nat) \<Rightarrow> cp \<Rightarrow> ustring \<Rightarrow> ustring" where
  "canonical_insert ccc x [] = [x]"
| "canonical_insert ccc x (y # ys) =
     (if ccc y < ccc x \<and> 0 < ccc y then y # canonical_insert ccc x ys else x # y # ys)"

fun canonical_order :: "(cp \<Rightarrow> nat) \<Rightarrow> ustring \<Rightarrow> ustring" where
  "canonical_order ccc [] = []"
| "canonical_order ccc (x # xs) = canonical_insert ccc x (canonical_order ccc xs)"

definition normalize_NFKD :: "ucd \<Rightarrow> ustring \<Rightarrow> ustring" where
  "normalize_NFKD db s = canonical_order (combining db) (concat (map (decomposition db) s))"

text \<open>
  \<open>str.lower\<close>: every character is replaced by its lower-case mapping, except the capital
  sigma U+03A3, which becomes the final sigma U+03C2 when it ends a word and the small
  sigma U+03C3 otherwise.  It ends a word when, skipping case-ignorable characters, a
  cased character precedes it and no cased character follows it.  \<open>pre\<close> is the text
  in front of the sigma, nearest character first.
\<close>

definition final_sigma :: "ucd \<Rightarrow> ustring \<Rightarrow> ustring \<Rightarrow> bool" where
  "final_sigma db pre post =
     ((case dropWhile (case_ignorable db) pre of [] \<Rightarrow> False | c # _ \<Rightarrow> cased db c) \<and>
      (case dropWhile (case_ignorable db) post of [] \<Rightarrow> True | c # _ \<Rightarrow> \<not> cased db c))"

fun lower_from :: "ucd \<Rightarrow> ustring \<Rightarrow> ustring \<Rightarrow> ustring" where
  "lower_from db pre [] = []"
| "lower_from db pre (c # cs) =
     (if c = 931 then [if final_sigma db pre cs then 962 else 963] else tolower db c)
       @ lower_from db (c # pre) cs"

definition str_lower :: "ucd \<Rightarrow> ustring \<Rightarrow> ustring" where
  "str_lower db s = lower_from db [] s"

text \<open>
  \<open>s.split()\<close> without arguments: the maximal runs of non-whitespace characters, in
  order.  \<open>w\<close> is the word being read.
\<close>

fun split_from :: "(cp \<Rightarrow> bool) \<Rightarrow> ustring \<Rightarrow> ustring \<Rightarrow> ustring list" where
  "split_from sp w [] = (if w = [] then [] else [w])"
| "split_from sp w (c # cs) =
     (if sp c then (if w = [] then split_from sp [] cs else w # split_from sp [] cs)
      else split_from sp (w @ [c]) cs)"

definition str_split :: "ucd \<Rightarrow> ustring \<Rightarrow> ustring list" where
  "str_split db s = split_from (isspace db) [] s"

text \<open>\<open>sep.join(ws)\<close>.\<close>

fun str_join :: "ustring \<Rightarrow> ustring list \<Rightarrow> ustring" where
  "str_join sep [] = []"
| "str_join sep [w] = w"
| "str_join sep (w # v # ws) = w @ sep @ str_join sep (v # ws)"

section \<open>normalize_name\<close>

definition normalize_name :: "ucd \<Rightarrow> pyval \<Rightarrow> ustring" where
  "normalize_name db name =
     (case name of
        PStr s \<Rightarrow>
          (let nfkd = normalize_NFKD db s;
               without_accents = filter (\<lambda>c. combining db c = 0) nfkd;
               lower = str_lower db without_accents;
               cleaned = filter (\<lambda>c. isalnum db c \<or> isspace db c) lower;
               normalized = cleaned
           in str_join (ustr '' '') (str_split db normalized))
      | _ \<Rightarrow> [])"

subsection \<open>The tables for Basic Latin and Latin-1\<close>

text \<open>
  Modelled from the Unicode character database (version 14, the one of CPython 3.11):
  the entries of the code points U+0000 to U+00FF and of the ten code points beyond them
  that occur in their decompositions (the combining marks U+0300 to U+0304, U+0308,
  U+030A and U+0327, the Greek letter mu U+03BC and the fraction slash U+2044).  The
  concrete examples below stay inside this range; on every other code point these
  tables say "no decomposition, class 0, no case, not alphanumeric, not a space",
  which is not a statement about the real database.
\<close>

definition latin1_marks :: "cp \<Rightarrow> cp" where
  "latin1_marks c =
     (if c \<in> {192, 200, 204, 210, 217, 224, 232, 236, 242, 249} then 768
      else if c \<in> {193, 201, 205, 211, 218, 221, 225, 233, 237, 243, 250, 253} then 769
      else if c \<in> {194, 202, 206, 212, 219, 226, 234, 238, 244, 251} then 770
      else if c \<in> {195, 209, 213, 227, 241, 245} then 771
      else if c \<in> {196, 203, 207, 214, 220, 228, 235, 239, 246, 252, 255} then 776
      else if c \<in> {197, 229} then 778
      else if c \<in> {199, 231} then 807
      else 0)"

definition latin1_base :: "cp \<Rightarrow> cp" where
  "latin1_base c =
     (if 192 \<le> c \<and> c \<le> 197 then 65
      else if c = 199 then 67
      else if 200 \<le> c \<and> c \<le> 203 then 69
      else if 204 \<le> c \<and> c \<le> 207 then 73
      else if c = 209 then 78
      else if 210 \<le> c \<and> c \<le> 214 then 79
      else if 217 \<le> c \<and> c \<le> 220 then 85
      else if c = 221 then 89
      else if 224 \<le> c \<and> c \<le> 229 then 97
      else if c = 231 then 99
      else if 232 \<le> c \<and> c \<le> 235 then 101
      else if 236 \<le> c \<and> c \<le> 239 then 105
      else if c = 241 then 110
      else if 242 \<le> c \<and> c \<le> 246 then 111
      else if 249 \<le> c \<and> c \<le> 252 then 117
      else if c = 253 \<or> c = 255 then 121
      else 0)"

definition latin1_decomposition :: "cp \<Rightarrow> ustring" where
  "latin1_decomposition c =
     (if c < 160 \<or> 255 < c then [c]
      else if latin1_marks c \<noteq> 0 then [latin1_base c, latin1_marks c]
      else if c = 160 then [32]
      else if c = 168 then [32, 776]
      else if c = 170 then [97]
      else if c = 175 then [32, 772]
      else if c = 178 then [50]
      else if c = 179 then [51]
      else if c = 180 then [32, 769]
      else if c = 181 then [956]
      else if c = 184 then [32, 807]
      else if c = 185 then [49]
      else if c = 186 then [111]
      else if c = 188 then [49, 8260, 52]
      else if c = 189 then [49, 8260, 50]
      else if c = 190 then [51, 8260, 52]
      else [c])"

definition latin1_combining :: "cp \<Rightarrow> nat" where
  "latin1_combining c =
     (if c \<in> {768, 769, 770, 771, 772, 776, 778} then 230 else if c = 807 then 202 else 0)"

definition latin1_tolower :: "cp \<Rightarrow> ustring" where
  "latin1_tolower c =
     (if (65 \<le> c \<and> c \<le> 90) \<or> (192 \<le> c \<and> c \<le> 222 \<and> c \<noteq> 215) then [c + 32] else [c])"

definition latin1_cased :: "cp \<Rightarrow> bool" where
  "latin1_cased c \<longleftrightarrow>
     (65 \<le> c \<and> c \<le> 90) \<or> (97 \<le> c \<and> c \<le> 122) \<or> c \<in> {170, 181, 186, 956} \<or>
     (192 \<le> c \<and> c \<le> 255 \<and> c \<noteq> 215 \<and> c \<noteq> 247)"

definition latin1_case_ignorable :: "cp \<Rightarrow> bool" where
  "latin1_case_ignorable c \<longleftrightarrow>
     c \<in> {39, 46, 58, 94, 96, 168, 173, 175, 180, 183, 184,
          768, 769, 770, 771, 772, 776, 778, 807}"

definition latin1_isalnum :: "cp \<Rightarrow> bool" where
  "latin1_isalnum c \<longleftrightarrow>
     (48 \<le> c \<and> c \<le> 57) \<or> (65 \<le> c \<and> c \<le> 90) \<or> (97 \<le> c \<and> c \<le> 122) \<or>
     c \<in> {170, 178, 179, 181, 185, 186, 188, 189, 190, 956} \<or>
     (192 \<le> c \<and> c \<le> 255 \<and> c \<noteq> 215 \<and> c \<noteq> 247)"

definition latin1_isspace :: "cp \<Rightarrow> bool" where
  "latin1_isspace c \<longleftrightarrow> (9 \<le> c \<and> c \<le> 13) \<or> (28 \<le> c \<and> c \<le> 32) \<or> c = 133 \<or> c = 160"

definition ucd_latin1 :: ucd where
  "ucd_latin1 =
     \<lparr> decomposition = latin1_decomposition,
       combining = latin1_combining,
       tolower = latin1_tolower,
       cased = latin1_cased,
       case_ignorable = latin1_case_ignorable,
       isalnum = latin1_isalnum,
       isspace = latin1_isspace \<rparr>"

section \<open>The sequence matcher of the standard library\<close>

text \<open>
  \<open>match\<close> calls \<open>difflib.get_close_matches\<close>, which compares the word with every
  candidate through a \<open>SequenceMatcher\<close> whose second sequence \<open>b\<close> is the word and whose
  first sequence \<open>a\<close> is the candidate.  The matcher is created without a junk
  predicate (its junk set is empty) and with the automatic junk heuristic on.  This
  section follows \<open>difflib.py\<close> of CPython 3.11.

  Scores are floats in the library: \<open>2.0 * matches / length\<close>.  They are rationals
  here.  The quotient is correctly rounded and \<open>0.75\<close> is a float, so for strings whose
  lengths add up to less than \<open>2 ^ 26\<close> the comparisons with the cutoff and between two
  scores come out the same on the floats and on the rationals.
\<close>

text \<open>
  \<open>__chain_b\<close>: when \<open>b\<close> has 200 elements or more, an element that occurs more than
  \<open>len(b) // 100 + 1\<close> times is popular and is removed from the index \<open>b2j\<close>.
\<close>

definition bpopular :: "ustring \<Rightarrow> cp \<Rightarrow> bool" where
  "bpopular b elt =
     (let n = length b in
      if n \<ge> 200 then count_list b elt > n div 100 + 1 else False)"

text \<open>
  \<open>find_longest_match\<close> on the whole of \<open>a\<close> and \<open>b\<close> (the recursion below calls it on
  slices, which are passed as lists).  The dictionary \<open>j2len\<close> is a list indexed by \<open>j\<close>,
  with 0 for an absent key.  \<open>new_row\<close> is one pass of the inner loop over the indices
  \<open>b2j[a[i]]\<close>: \<open>newj2len[j] = j2len.get(j-1, 0) + 1\<close> where \<open>b[j] == a[i]\<close> and \<open>b[j]\<close> is
  not popular.  \<open>best_row\<close> is the update of \<open>(besti, bestj, bestsize)\<close> in the same
  pass, in increasing \<open>j\<close>.
\<close>

definition new_row :: "(cp \<Rightarrow> bool) \<Rightarrow> cp \<Rightarrow> ustring \<Rightarrow> nat list \<Rightarrow> nat list" where
  "new_row popular ai b j2len =
     map (\<lambda>(bj, p). if bj = ai \<and> \<not> popular bj then p + 1 else 0) (zip b (0 # j2len))"

fun best_row :: "nat \<Rightarrow> nat \<Rightarrow> nat list \<Rightarrow> nat \<times> nat \<times> nat \<Rightarrow> nat \<times> nat \<times> nat" where
  "best_row i j [] best = best"
| "best_row i j (k # ks) (besti, bestj, bestsize) =
     best_row i (Suc j) ks
       (if k > bestsize then (i + 1 - k, j + 1 - k, k) else (besti, bestj, bestsize))"

fun flm_loop ::
  "(cp \<Rightarrow> bool) \<Rightarrow> ustring \<Rightarrow> nat \<Rightarrow> ustring \<Rightarrow> nat list \<Rightarrow> nat \<times> nat \<times> nat \<Rightarrow> nat \<times> nat \<times> nat"
where
  "flm_loop popular b i [] j2len best = best"
| "flm_loop popular b i (ai # as) j2len best =
     (let newj2len = new_row popular ai b j2len
      in flm_loop popular b (Suc i) as newj2len (best_row i 0 newj2len best))"

text \<open>
  The two loops that extend the best block to the left and to the right while the
  neighbouring elements are equal count a common prefix: of the reversed texts in front
  of the block, and of the texts behind it.  The two loops over junk elements never run,
  the junk set being empty.
\<close>

fun common_prefix :: "'a list \<Rightarrow> 'a list \<Rightarrow> nat" where
  "common_prefix (x # xs) (y # ys) = (if x = y then Suc (common_prefix xs ys) else 0)"
| "common_prefix xs ys = 0"

definition find_longest_match :: "(cp \<Rightarrow> bool) \<Rightarrow> ustring \<Rightarrow> ustring \<Rightarrow> nat \<times> nat \<times> nat" where
  "find_longest_match popular a b =
     (case flm_loop popular b 0 a (replicate (length b) 0) (0, 0, 0) of
        (besti, bestj, bestsize) \<Rightarrow>
          (let l = common_prefix (rev (take besti a)) (rev (take bestj b));
               besti = besti - l; bestj = bestj - l; bestsize = bestsize + l;
               r = common_prefix (drop (besti + bestsize) a) (drop (bestj + bestsize) b)
           in (besti, bestj, bestsize + r)))"

text \<open>
  The entries of \<open>j2len\<close> after the elements \<open>pre\<close> of \<open>a\<close>: the entry at \<open>j\<close> is the
  length of the longest common suffix of \<open>pre\<close> and \<open>b[:j+1]\<close> made of unpopular
  elements.  Every entry, and so the block the loop keeps, is a block of both sequences.
\<close>

fun seeded_prefix :: "(cp \<Rightarrow> bool) \<Rightarrow> ustring \<Rightarrow> ustring \<Rightarrow> nat" where
  "seeded_prefix popular (x # xs) (y # ys) =
     (if x = y \<and> \<not> popular y then Suc (seeded_prefix popular xs ys) else 0)"
| "seeded_prefix popular xs ys = 0"

definition row_of :: "(cp \<Rightarrow> bool) \<Rightarrow> ustring \<Rightarrow> ustring \<Rightarrow> nat list" where
  "row_of popular pre b =
     map (\<lambda>j. seeded_prefix popular (rev pre) (rev (take (Suc j) b))) [0..<length b]"

definition valid_block :: "'a list \<Rightarrow> 'a list \<Rightarrow> nat \<times> nat \<times> nat \<Rightarrow> bool" where
  "valid_block a b m \<longleftrightarrow>
     (case m of (i, j, k) \<Rightarrow>
        (\<exists>a1 blk a2 b1 b2. a = a1 @ blk @ a2 \<and> b = b1 @ blk @ b2 \<and>
           length a1 = i \<and> length b1 = j \<and> length blk = k))"

lemma row_of_Nil: "row_of popular [] b = replicate (length b) 0"
  by (simp add: row_of_def map_replicate_const)

lemma new_row_row_of:
  "new_row popular ai b (row_of popular pre b) = row_of popular (pre @ [ai]) b"
proof (rule nth_equalityI)
  show "length (new_row popular ai b (row_of popular pre b)) = length (row_of popular (pre @ [ai]) b)"
    by (simp add: new_row_def row_of_def)
next
  fix j assume "j < length (new_row popular ai b (row_of popular pre b))"
  then have j: "j < length b" by (simp add: new_row_def row_of_def)
  have prev: "(0 # row_of popular pre b) ! j = seeded_prefix popular (rev pre) (rev (take j b))"
    using j by (cases j) (simp_all add: row_of_def)
  have "new_row popular ai b (row_of popular pre b) ! j =
          (if b ! j = ai \<and> \<not> popular (b ! j) then (0 # row_of popular pre b) ! j + 1 else 0)"
    using j by (auto simp: new_row_def row_of_def)
  also have "\<dots> = seeded_prefix popular (rev (pre @ [ai])) (rev (take (Suc j) b))"
    using j by (auto simp: prev take_Suc_conv_app_nth)
  finally show "new_row popular ai b (row_of popular pre b) ! j = row_of popular (pre @ [ai]) b ! j"
    using j by (simp add: row_of_def)
qed

lemma seeded_prefix_split:
  "\<exists>p xs' ys'. xs = p @ xs' \<and> ys = p @ ys' \<and> length p = seeded_prefix popular xs ys"
proof (induction popular xs ys rule: seeded_prefix.induct)
  case (1 popular x xs y ys)
  show ?case
  proof (cases "x = y \<and> \<not> popular y")
    case True
    with 1 obtain p xs' ys' where "xs = p @ xs'" "ys = p @ ys'" "length p = seeded_prefix popular xs ys"
      by blast
    with True have "x # xs = (x # p) @ xs' \<and> y # ys = (x # p) @ ys' \<and>
        length (x # p) = seeded_prefix popular (x # xs) (y # ys)" by simp
    then show ?thesis by blast
  next
    case False
    then have "x # xs = [] @ (x # xs) \<and> y # ys = [] @ (y # ys) \<and>
        length ([]::ustring) = seeded_prefix popular (x # xs) (y # ys)" by auto
    then show ?thesis by blast
  qed
qed auto

lemma common_prefix_split:
  "\<exists>p xs' ys'. xs = p @ xs' \<and> ys = p @ ys' \<and> length p = common_prefix xs ys"
proof (induction xs ys rule: common_prefix.induct)
  case (1 x xs y ys)
  show ?case
  proof (cases "x = y")
    case True
    with 1 obtain p xs' ys' where "xs = p @ xs'" "ys = p @ ys'" "length p = common_prefix xs ys"
      by blast
    with True have "x # xs = (x # p) @ xs' \<and> y # ys = (x # p) @ ys' \<and>
        length (x # p) = common_prefix (x # xs) (y # ys)" by simp
    then show ?thesis by blast
  next
    case False
    then have "x # xs = [] @ (x # xs) \<and> y # ys = [] @ (y # ys) \<and>
        length ([]::'a list) = common_prefix (x # xs) (y # ys)" by auto
    then show ?thesis by blast
  qed
qed auto

lemma valid_block_row:
  assumes a: "a = pre @ rest" and j: "j < length b"
    and k: "k = seeded_prefix popular (rev pre) (rev (take (Suc j) b))"
  shows "valid_block a b (length pre - k, Suc j - k, k)"
proof -
  obtain p xs' ys' where p: "rev pre = p @ xs'" "rev (take (Suc j) b) = p @ ys'" "length p = k"
    using seeded_prefix_split[of "rev pre" "rev (take (Suc j) b)" popular] k by auto
  have pre: "pre = rev xs' @ rev p" using p(1) by (metis rev_append rev_rev_ident)
  have tk: "take (Suc j) b = rev ys' @ rev p" using p(2) by (metis rev_append rev_rev_ident)
  have la: "length (rev xs') = length pre - k" using pre p(3) by simp
  have "length (take (Suc j) b) = Suc j" using j by simp
  then have lb: "length (rev ys') = Suc j - k" using tk p(3) by simp
  have "a = rev xs' @ rev p @ rest" using a pre by simp
  moreover have "b = rev ys' @ rev p @ drop (Suc j) b"
    using tk by (metis append_assoc append_take_drop_id)
  moreover have "length (rev p) = k" using p(3) by simp
  ultimately show ?thesis
    unfolding valid_block_def prod.case using la lb by blast
qed

lemma best_row_cases:
  assumes "P best" and "\<And>n. n < length ks \<Longrightarrow> 0 < ks ! n \<Longrightarrow> P (i + 1 - ks ! n, j + n + 1 - ks ! n, ks ! n)"
  shows "P (best_row i j ks best)"
  using assms
proof (induction ks arbitrary: j best)
  case Nil
  then show ?case by simp
next
  case (Cons k ks)
  obtain bi bj bs where best: "best = (bi, bj, bs)" by (cases best) auto
  have hd: "0 < k \<Longrightarrow> P (i + 1 - k, j + 1 - k, k)" using Cons.prems(2)[of 0] by simp
  have tl: "\<And>n. n < length ks \<Longrightarrow> 0 < ks ! n \<Longrightarrow> P (i + 1 - ks ! n, Suc j + n + 1 - ks ! n, ks ! n)"
    using Cons.prems(2)[of "Suc _"] by simp
  show ?case
    unfolding best best_row.simps
    by (rule Cons.IH) (use Cons.prems(1) best hd tl in auto)
qed

lemma flm_loop_valid:
  assumes "a = pre @ rest" "valid_block a b best"
  shows "valid_block a b (flm_loop popular b (length pre) rest (row_of popular pre b) best)"
  using assms
proof (induction rest arbitrary: pre best)
  case Nil
  then show ?case by simp
next
  case (Cons ai rest)
  let ?row = "row_of popular (pre @ [ai]) b"
  have a: "a = (pre @ [ai]) @ rest" using Cons.prems(1) by simp
  have "valid_block a b (best_row (length pre) 0 ?row best)"
  proof (rule best_row_cases)
    show "valid_block a b best" by (rule Cons.prems(2))
  next
    fix n assume n: "n < length ?row" and "0 < ?row ! n"
    have nb: "n < length b" using n by (simp add: row_of_def)
    have "?row ! n = seeded_prefix popular (rev (pre @ [ai])) (rev (take (Suc n) b))"
      using nb by (simp add: row_of_def)
    from valid_block_row[OF a nb this]
    show "valid_block a b (length pre + 1 - ?row ! n, 0 + n + 1 - ?row ! n, ?row ! n)" by simp
  qed
  from Cons.IH[OF a this]
  have "valid_block a b (flm_loop popular b (Suc (length pre)) rest ?row
          (best_row (length pre) 0 ?row best))" by simp
  moreover have "flm_loop popular b (length pre) (ai # rest) (row_of popular pre b) best =
      flm_loop popular b (Suc (length pre)) rest ?row (best_row (length pre) 0 ?row best)"
    by (simp add: new_row_row_of Let_def)
  ultimately show ?case by (simp only:)
qed

lemma find_longest_match_valid: "valid_block a b (find_longest_match popular a b)"
proof -
  obtain bi bj bk where l: "flm_loop popular b 0 a (replicate (length b) 0) (0, 0, 0) = (bi, bj, bk)"
    by (metis prod_cases3)
  have "valid_block a b (0, 0, 0)" by (simp add: valid_block_def)
  then have "valid_block a b
      (flm_loop popular b (length ([]::ustring)) a (row_of popular [] b) (0, 0, 0))"
    by (intro flm_loop_valid) simp_all
  then have "valid_block a b (bi, bj, bk)" using l by (simp add: row_of_Nil)
  then obtain a1 blk a2 b1 b2 where d: "a = a1 @ blk @ a2" "b = b1 @ blk @ b2"
    "length a1 = bi" "length b1 = bj" "length blk = bk"
    unfolding valid_block_def prod.case by blast
  define l where "l = common_prefix (rev (take bi a)) (rev (take bj b))"
  obtain p xs' ys' where p: "rev a1 = p @ xs'" "rev b1 = p @ ys'" "length p = l"
    using common_prefix_split[of "rev a1" "rev b1"] d by (auto simp: l_def)
  have a1: "a1 = rev xs' @ rev p" using p(1) by (metis rev_append rev_rev_ident)
  have b1: "b1 = rev ys' @ rev p" using p(2) by (metis rev_append rev_rev_ident)
  define r where "r = common_prefix (drop (bi - l + (bk + l)) a) (drop (bj - l + (bk + l)) b)"
  have lbi: "l \<le> bi" "l \<le> bj" using a1 b1 d p(3) by auto
  have "r = common_prefix a2 b2" using d lbi by (simp add: r_def)
  then obtain q as' bs' where q: "a2 = q @ as'" "b2 = q @ bs'" "length q = r"
    using common_prefix_split[of a2 b2] by auto
  have "a = rev xs' @ (rev p @ blk @ q) @ as'" "b = rev ys' @ (rev p @ blk @ q) @ bs'"
    using d a1 b1 q by simp_all
  moreover have "length (rev xs') = bi - l" "length (rev ys') = bj - l"
    using a1 b1 d p(3) by auto
  moreover have "length (rev p @ blk @ q) = bk + l + r" using p(3) q(3) d by simp
  ultimately have "valid_block a b (bi - l, bj - l, bk + l + r)"
    unfolding valid_block_def by blast
  then show ?thesis
    by (simp add: find_longest_match_def l Let_def l_def r_def)
qed

lemma find_longest_match_bounds:
  assumes "find_longest_match popular a b = (i, j, k)"
  shows "i + k \<le> length a" "j + k \<le> length b"
  using find_longest_match_valid[of a b popular] assms by (auto simp: valid_block_def)

text \<open>
  \<open>get_matching_blocks\<close> and \<open>ratio\<close>: the longest block is found, then the
  search goes on in the parts to its left and to its right when both are non-empty.
  \<open>ratio\<close> adds up the sizes of the blocks, so the order in which the work queue is
  emptied and the merging of adjacent blocks make no difference to it.  The slices
  \<open>a[alo:ahi]\<close> and \<open>b[blo:bhi]\<close> are the two list arguments; the popular elements are
  those of the whole of \<open>b\<close>.
\<close>

function matches_total :: "(cp \<Rightarrow> bool) \<Rightarrow> ustring \<Rightarrow> ustring \<Rightarrow> nat" where
  "matches_total popular a b =
     (case find_longest_match popular a b of
        (i, j, k) \<Rightarrow>
          if k = 0 then 0
          else k
            + (if 0 < i \<and> 0 < j then matches_total popular (take i a) (take j b) else 0)
            + (if i + k < length a \<and> j + k < length b
               then matches_total popular (drop (i + k) a) (drop (j + k) b) else 0))"
  by pat_completeness auto
termination
  apply (relation "measure (\<lambda>(popular, a, b). length a)")
  subgoal by simp
  subgoal for popular a b i y j k
    using find_longest_match_bounds(1)[of popular a b i j k] by simp
  subgoal by auto
  done

declare matches_total.simps [simp del]

text \<open>\<open>_calculate_ratio\<close>, \<open>ratio\<close>, \<open>quick_ratio\<close> and \<open>real_quick_ratio\<close>.\<close>

definition calculate_ratio :: "nat \<Rightarrow> nat \<Rightarrow> rat" where
  "calculate_ratio matches len = (if len \<noteq> 0 then 2 * of_nat matches / of_nat len else 1)"

definition ratio :: "ustring \<Rightarrow> ustring \<Rightarrow> rat" where
  "ratio a b = calculate_ratio (matches_total (bpopular b) a b) (length a + length b)"

text \<open>
  \<open>quick_ratio\<close> counts, for every element of \<open>a\<close> in turn, whether an occurrence of it
  in \<open>b\<close> is still available.  \<open>avail\<close> is the dictionary of the same name; the count of
  an element that is not in it yet is read from \<open>fullbcount\<close>, the number of its
  occurrences in \<open>b\<close>.
\<close>

fun quick_loop :: "ustring \<Rightarrow> (cp \<rightharpoonup> int) \<Rightarrow> ustring \<Rightarrow> nat \<Rightarrow> nat" where
  "quick_loop b avail [] matches = matches"
| "quick_loop b avail (elt # as) matches =
     (let numb = (case avail elt of Some n \<Rightarrow> n | None \<Rightarrow> int (count_list b elt))
      in quick_loop b (avail(elt \<mapsto> numb - 1)) as (if numb > 0 then matches + 1 else matches))"

definition quick_ratio :: "ustring \<Rightarrow> ustring \<Rightarrow> rat" where
  "quick_ratio a b = calculate_ratio (quick_loop b Map.empty a 0) (length a + length b)"

definition real_quick_ratio :: "ustring \<Rightarrow> ustring \<Rightarrow> rat" where
  "real_quick_ratio a b = calculate_ratio (min (length a) (length b)) (length a + length b)"

text \<open>
  \<open>get_close_matches(word, possibilities, n, cutoff)\<close>.  \<open>heapq.nlargest(n, result)\<close> is
  \<open>sorted(result, reverse=True)[:n]\<close>; the elements are pairs of a score and a string,
  compared as Python compares tuples: by score, then by the strings, code point by code
  point.
\<close>

definition nlargest :: "int \<Rightarrow> (rat \<times> ustring) list \<Rightarrow> (rat \<times> ustring) list" where
  "nlargest n result = take (nat n) (rev (sort result))"

definition get_close_matches :: "ustring \<Rightarrow> ustring list \<Rightarrow> int \<Rightarrow> rat \<Rightarrow> error + ustring list" where
  "get_close_matches word possibilities n cutoff =
     (if \<not> n > 0 then Inl ValueError
      else if \<not> (0 \<le> cutoff \<and> cutoff \<le> 1) then Inl ValueError
      else
        (let result = map (\<lambda>x. (ratio x word, x))
               (filter (\<lambda>x. real_quick_ratio x word \<ge> cutoff \<and>
                              quick_ratio x word \<ge> cutoff \<and>
                              ratio x word \<ge> cutoff) possibilities)
         in Inr (map snd (nlargest n result))))"

section \<open>IbgeIndex\<close>

text \<open>
  A record of the registry is a dictionary (\<open>List[Dict[str, Any]]\<close>).  The index keeps
  the raw list, the dictionary from normalized name to the records with that name, and
  the list of normalized names.  \<open>name_to_municipios\<close> is a \<open>defaultdict(list)\<close>: a
  dictionary in insertion order, where reading a missing key inserts the key with an
  empty list.
\<close>

record IbgeIndex =
  municipios :: "pydict list"
  name_to_municipios :: "(ustring \<times> pydict list) list"
  normalized_names :: "ustring list"

text \<open>\<open>d[k]\<close> on a \<open>defaultdict(list)\<close>: the value and the dictionary afterwards.\<close>

definition defaultdict_getitem ::
  "(ustring \<times> 'v list) list \<Rightarrow> ustring \<Rightarrow> 'v list \<times> (ustring \<times> 'v list) list" where
  "defaultdict_getitem d k =
     (case map_of d k of Some v \<Rightarrow> (v, d) | None \<Rightarrow> ([], AList.update k [] d))"

text \<open>
  One round of the loop of \<open>__init__\<close>: \<open>self.name_to_municipios[norm].append(m)\<close> reads
  the list of \<open>norm\<close> (inserting an empty one if there is none) and appends to it in
  place.
\<close>

definition init_step :: "ucd \<Rightarrow> IbgeIndex \<Rightarrow> pydict \<Rightarrow> IbgeIndex" where
  "init_step db self m =
     (let nome_oficial = dict_get m (ustr ''nome'') (PStr []);
          norm = normalize_name db nome_oficial;
          (lista, d) = defaultdict_getitem (name_to_municipios self) norm
      in self\<lparr> name_to_municipios := AList.update norm (lista @ [m]) d,
               normalized_names := normalized_names self @ [norm] \<rparr>)"

text \<open>
  \<open>list(set(names))\<close> lists every element once, in the iteration order of the
  interpreter's set, which depends on the hashes of the strings.  The order is the
  parameter \<open>set_iter\<close>; \<open>set_order\<close> says what every such order satisfies.
\<close>

definition set_order :: "(ustring list \<Rightarrow> ustring list) \<Rightarrow> bool" where
  "set_order set_iter \<longleftrightarrow> (\<forall>xs. distinct (set_iter xs) \<and> set (set_iter xs) = set xs)"

definition IbgeIndex_init :: "ucd \<Rightarrow> (ustring list \<Rightarrow> ustring list) \<Rightarrow> pydict list \<Rightarrow> IbgeIndex" where
  "IbgeIndex_init db set_iter ms =
     (let self = foldl (init_step db)
                   \<lparr> municipios = ms, name_to_municipios = [], normalized_names = [] \<rparr> ms
      in self\<lparr> normalized_names := set_iter (normalized_names self) \<rparr>)"

subsection \<open>The preferred record of a group\<close>

text \<open>
  The body of the \<open>try\<close> in \<open>_choose_preferred_municipio\<close>, up to the name of the region.
  Each step reads a key with \<open>{}\<close> as the default and replaces a false value by \<open>{}\<close>;
  the next \<open>get\<close> raises when the value is neither.
\<close>

definition regiao_nome :: "pydict \<Rightarrow> error + pyval" where
  "regiao_nome m =
     (let mic = py_or (dict_get m (ustr ''microrregiao'') (PDict [])) (PDict []) in
      case py_get mic (ustr ''mesorregiao'') (PDict []) of
        Inl e \<Rightarrow> Inl e
      | Inr meso0 \<Rightarrow>
          (let meso = py_or meso0 (PDict []) in
           case py_get meso (ustr ''UF'') (PDict []) of
             Inl e \<Rightarrow> Inl e
           | Inr uf0 \<Rightarrow>
               (let uf_dict = py_or uf0 (PDict []) in
                case py_get uf_dict (ustr ''regiao'') (PDict []) of
                  Inl e \<Rightarrow> Inl e
                | Inr regiao0 \<Rightarrow>
                    (let regiao_dict = py_or regiao0 (PDict []) in
                     py_get regiao_dict (ustr ''nome'') (PStr [])))))"

text \<open>
  The loop: the first record whose region name equals \<open>"Sudeste"\<close> is returned; a record
  on which the body raises is skipped by the \<open>except\<close>.  \<open>None\<close> stands for leaving the
  loop without a \<open>return\<close>.
\<close>

fun choose_loop :: "pydict list \<Rightarrow> pydict option" where
  "choose_loop [] = None"
| "choose_loop (m # lista) =
     (case regiao_nome m of
        Inr nome \<Rightarrow> if nome = PStr (ustr ''Sudeste'') then Some m else choose_loop lista
      | Inl e \<Rightarrow> choose_loop lista)"

definition choose_preferred_municipio :: "pydict list \<Rightarrow> error + pydict" where
  "choose_preferred_municipio lista =
     (case choose_loop lista of
        Some m \<Rightarrow> Inr m
      | None \<Rightarrow> (case lista of [] \<Rightarrow> Inl IndexError | m # _ \<Rightarrow> Inr m))"

subsection \<open>match\<close>

datatype status = OK | NAO_ENCONTRADO

text \<open>
  \<open>match\<close> returns the pair of the status and the record, or raises; the second
  component of the result is the index after the call, since the second read of
  \<open>name_to_municipios\<close> is a read of a \<open>defaultdict\<close>.
\<close>

definition match :: "ucd \<Rightarrow> IbgeIndex \<Rightarrow> pyval \<Rightarrow> (error + status \<times> pydict) \<times> IbgeIndex" where
  "match db self municipio_input =
     (let norm_input = normalize_name db municipio_input in
      case map_of (name_to_municipios self) norm_input of
        Some lista \<Rightarrow>
          (case lista of
             [m] \<Rightarrow> (Inr (OK, m), self)
           | _ \<Rightarrow>
               (case choose_preferred_municipio lista of
                  Inl e \<Rightarrow> (Inl e, self)
                | Inr escolhido \<Rightarrow> (Inr (OK, escolhido), self)))
      | None \<Rightarrow>
          (case get_close_matches norm_input (normalized_names self) 3 (3 / 4) of
             Inl e \<Rightarrow> (Inl e, self)
           | Inr candidates \<Rightarrow>
               (case candidates of
                  [] \<Rightarrow> (Inr (NAO_ENCONTRADO, []), self)
                | best # _ \<Rightarrow>
                    (let (lista, d) = defaultdict_getitem (name_to_municipios self) best;
                         self' = self\<lparr> name_to_municipios := d \<rparr>
                     in case lista of
                          [m] \<Rightarrow> (Inr (OK, m), self')
                        | _ \<Rightarrow> (Inr (NAO_ENCONTRADO, []), self')))))"

section \<open>The index after construction\<close>

text \<open>
  \<open>name_key\<close> is the key under which \<open>__init__\<close> files a record, \<open>group_of\<close> the records
  of a list with a given key, in the order of the list.  \<open>index_of db raw ps self\<close> says
  what the loop of \<open>__init__\<close> has built after the records \<open>ps\<close>.
\<close>

definition name_key :: "ucd \<Rightarrow> pydict \<Rightarrow> ustring" where
  "name_key db m = normalize_name db (dict_get m (ustr ''nome'') (PStr []))"

definition group_of :: "ucd \<Rightarrow> pydict list \<Rightarrow> ustring \<Rightarrow> pydict list" where
  "group_of db ms k = filter (\<lambda>m. name_key db m = k) ms"

definition index_of :: "ucd \<Rightarrow> pydict list \<Rightarrow> pydict list \<Rightarrow> IbgeIndex \<Rightarrow> bool" where
  "index_of db raw ps self \<longleftrightarrow>
     municipios self = raw \<and>
     distinct (map fst (name_to_municipios self)) \<and>
     (\<forall>k. map_of (name_to_municipios self) k =
          (if k \<in> name_key db ` set ps then Some (group_of db ps k) else None)) \<and>
     normalized_names self = map (name_key db) ps"

lemma index_of_empty:
  "index_of db raw [] \<lparr> municipios = raw, name_to_municipios = [], normalized_names = [] \<rparr>"
  by (simp add: index_of_def)

lemma index_of_step:
  assumes "index_of db raw ps self"
  shows "index_of db raw (ps @ [m]) (init_step db self m)"
proof -
  let ?k = "name_key db m"
  let ?d = "name_to_municipios self"
  obtain lista d where g: "defaultdict_getitem ?d ?k = (lista, d)" by (cases "defaultdict_getitem ?d ?k")
  have step: "init_step db self m =
      self\<lparr> name_to_municipios := AList.update ?k (lista @ [m]) d,
            normalized_names := normalized_names self @ [?k] \<rparr>"
    using g by (simp add: init_step_def name_key_def Let_def)
  have mk: "map_of ?d ?k = (if ?k \<in> name_key db ` set ps then Some (group_of db ps ?k) else None)"
    using assms by (simp add: index_of_def)
  have "group_of db ps ?k = []" if "?k \<notin> name_key db ` set ps"
    unfolding group_of_def filter_empty_conv using that by (metis imageI)
  then have lista: "lista = group_of db ps ?k"
    using g mk by (auto simp: defaultdict_getitem_def split: if_splits)
  have dist: "distinct (map fst d)"
    using g assms by (auto simp: defaultdict_getitem_def index_of_def distinct_update split: option.splits)
  have mo: "map_of d = (if ?k \<in> name_key db ` set ps then map_of ?d else (map_of ?d)(?k \<mapsto> []))"
    using g assms by (auto simp: defaultdict_getitem_def index_of_def update_conv' split: option.splits if_splits)
  have "map_of (AList.update ?k (lista @ [m]) d) k =
        (if k \<in> name_key db ` set (ps @ [m]) then Some (group_of db (ps @ [m]) k) else None)" for k
    using assms by (auto simp: update_conv' mo lista index_of_def group_of_def)
  then show ?thesis
    using assms dist by (simp add: index_of_def step distinct_update)
qed

lemma index_of_foldl:
  assumes "index_of db raw ps self"
  shows "index_of db raw (ps @ ms) (foldl (init_step db) self ms)"
  using assms
proof (induction ms arbitrary: ps self)
  case Nil
  then show ?case by simp
next
  case (Cons m ms)
  from Cons.IH[OF index_of_step[OF Cons.prems, of m]] show ?case by simp
qed

lemma IbgeIndex_init_index_of:
  "\<exists>self. index_of db ms ms self \<and>
     IbgeIndex_init db set_iter ms = self\<lparr> normalized_names := set_iter (map (name_key db) ms) \<rparr>"
proof -
  let ?s = "foldl (init_step db) \<lparr> municipios = ms, name_to_municipios = [], normalized_names = [] \<rparr> ms"
  have "index_of db ms ([] @ ms) ?s" by (rule index_of_foldl[OF index_of_empty])
  then have i: "index_of db ms ms ?s" by simp
  then have "normalized_names ?s = map (name_key db) ms" by (simp add: index_of_def)
  then have "IbgeIndex_init db set_iter ms = ?s\<lparr> normalized_names := set_iter (map (name_key db) ms) \<rparr>"
    by (simp add: IbgeIndex_init_def Let_def)
  with i show ?thesis by blast
qed

lemma sum_list_indicator:
  "distinct ks \<Longrightarrow> (\<Sum>k\<leftarrow>ks. if x = k then 1 else 0) = (if x \<in> set ks then 1 else (0::nat))"
  by (induction ks) auto

lemma sum_group_lengths:
  assumes "distinct ks" "name_key db ` set ms \<subseteq> set ks"
  shows "(\<Sum>k\<leftarrow>ks. length (group_of db ms k)) = length ms"
  using assms(2)
proof (induction ms)
  case Nil
  then show ?case by (simp add: group_of_def)
next
  case (Cons m ms)
  have "(\<Sum>k\<leftarrow>ks. length (group_of db (m # ms) k)) =
        (\<Sum>k\<leftarrow>ks. (if name_key db m = k then 1 else 0) + length (group_of db ms k))"
    by (intro arg_cong[where f=sum_list] map_cong) (auto simp: group_of_def)
  also have "\<dots> = (\<Sum>k\<leftarrow>ks. if name_key db m = k then 1 else 0) + (\<Sum>k\<leftarrow>ks. length (group_of db ms k))"
    by (simp add: sum_list_addf)
  also have "(\<Sum>k\<leftarrow>ks. if name_key db m = k then 1 else 0) = (1::nat)"
    using assms(1) Cons.prems by (simp add: sum_list_indicator)
  finally show ?case using Cons by simp
qed


lemma index_of_groups:
  assumes "index_of db raw ms self"
  shows "fst ` set (name_to_municipios self) = name_key db ` set ms"
    and "(k, g) \<in> set (name_to_municipios self) \<Longrightarrow> g = group_of db ms k \<and> g \<noteq> []"
    and "(\<Sum>(k, g)\<leftarrow>name_to_municipios self. length g) = length ms"
proof -
  let ?d = "name_to_municipios self"
  have dist: "distinct (map fst ?d)" using assms by (simp add: index_of_def)
  have mo: "map_of ?d k = (if k \<in> name_key db ` set ms then Some (group_of db ms k) else None)" for k
    using assms by (simp add: index_of_def)
  have "dom (map_of ?d) = name_key db ` set ms"
    by (auto simp: mo dom_def)
  then show keys: "fst ` set ?d = name_key db ` set ms"
    by (simp add: dom_map_of_conv_image_fst)
  have grp: "g = group_of db ms k \<and> g \<noteq> []" if "(k, g) \<in> set ?d" for k g
  proof -
    from that dist have "map_of ?d k = Some g" by simp
    then have k: "k \<in> name_key db ` set ms" and g: "g = group_of db ms k"
      by (auto simp: mo split: if_splits)
    from k obtain m where "m \<in> set ms" "name_key db m = k" by auto
    then have "m \<in> set (group_of db ms k)" by (simp add: group_of_def)
    with g show ?thesis by auto
  qed
  then show "(k, g) \<in> set ?d \<Longrightarrow> g = group_of db ms k \<and> g \<noteq> []" by blast
  have "(\<Sum>(k, g)\<leftarrow>?d. length g) = (\<Sum>p\<leftarrow>?d. length (group_of db ms (fst p)))"
    by (intro arg_cong[where f=sum_list] map_cong) (use grp in auto)
  also have "\<dots> = (\<Sum>k\<leftarrow>map fst ?d. length (group_of db ms k))"
    by (simp add: comp_def)
  also have "\<dots> = length ms"
    by (rule sum_group_lengths) (use dist keys in auto)
  finally show "(\<Sum>(k, g)\<leftarrow>?d. length g) = length ms" .
qed

text \<open>
  Claim C8.  For every list of registry records, the index built from it keeps the list,
  has one group per normalized name, and the group of a name holds exactly the records
  with that name, in input order: every record is in the group of its own name and in no
  other.  The sizes of the groups add up to the number of records.  The list of candidate
  keys has no repetition and its elements are the keys of the groups.
\<close>

theorem index_construction_complete:
  assumes "set_order set_iter"
  shows "municipios (IbgeIndex_init db set_iter ms) = ms \<and>
    distinct (map fst (name_to_municipios (IbgeIndex_init db set_iter ms))) \<and>
    (\<forall>m \<in> set ms. map_of (name_to_municipios (IbgeIndex_init db set_iter ms)) (name_key db m)
        = Some (group_of db ms (name_key db m))) \<and>
    (\<forall>(k, g) \<in> set (name_to_municipios (IbgeIndex_init db set_iter ms)).
        g = group_of db ms k \<and> g \<noteq> []) \<and>
    (\<Sum>(k, g)\<leftarrow>name_to_municipios (IbgeIndex_init db set_iter ms). length g) = length ms \<and>
    distinct (normalized_names (IbgeIndex_init db set_iter ms)) \<and>
    set (normalized_names (IbgeIndex_init db set_iter ms))
      = fst ` set (name_to_municipios (IbgeIndex_init db set_iter ms))"
proof -
  obtain self where i: "index_of db ms ms self"
    and e: "IbgeIndex_init db set_iter ms = self\<lparr> normalized_names := set_iter (map (name_key db) ms) \<rparr>"
    using IbgeIndex_init_index_of by blast
  have so: "distinct (set_iter (map (name_key db) ms))"
    "set (set_iter (map (name_key db) ms)) = name_key db ` set ms"
    using assms by (simp_all add: set_order_def)
  have "\<forall>m \<in> set ms. map_of (name_to_municipios self) (name_key db m)
        = Some (group_of db ms (name_key db m))"
    using i by (simp add: index_of_def)
  moreover have "\<forall>(k, g) \<in> set (name_to_municipios self). g = group_of db ms k \<and> g \<noteq> []"
    using index_of_groups(2)[OF i] by blast
  moreover have "municipios self = ms" "distinct (map fst (name_to_municipios self))"
    using i by (simp_all add: index_of_def)
  ultimately show ?thesis
    using index_of_groups(1,3)[OF i] so by (simp add: e)
qed

text \<open>
  A record in the shape of the registry, and a registry of three records, two of them
  with the same name.
\<close>

definition municipio :: "int \<Rightarrow> ustring \<Rightarrow> ustring \<Rightarrow> ustring \<Rightarrow> pydict" where
  "municipio ident nome sigla regiao =
     [(ustr ''id'', PInt ident),
      (ustr ''nome'', PStr nome),
      (ustr ''microrregiao'', PDict
        [(ustr ''mesorregiao'', PDict
          [(ustr ''UF'', PDict
            [(ustr ''sigla'', PStr sigla),
             (ustr ''regiao'', PDict [(ustr ''nome'', PStr regiao)])])])])]"

definition registry3 :: "pydict list" where
  "registry3 =
     [municipio 4106902 (ustr ''Curitiba'') (ustr ''PR'') (ustr ''Sul''),
      municipio 2513851 (ustr ''Santo Andr'' @ [233]) (ustr ''PB'') (ustr ''Nordeste''),
      municipio 3547809 (ustr ''Santo Andr'' @ [233]) (ustr ''SP'') (ustr ''Sudeste'')]"

lemma set_order_remdups: "set_order remdups"
  by (simp add: set_order_def)

theorem index_construction_complete_witness:
  "set_order remdups \<and>
   map fst (name_to_municipios (IbgeIndex_init ucd_latin1 remdups registry3))
     = [ustr ''curitiba'', ustr ''santo andre''] \<and>
   (\<Sum>(k, g)\<leftarrow>name_to_municipios (IbgeIndex_init ucd_latin1 remdups registry3). length g) = 3 \<and>
   length registry3 = 3"
proof -
  have "map fst (name_to_municipios (IbgeIndex_init ucd_latin1 remdups registry3))
     = [ustr ''curitiba'', ustr ''santo andre'']" by code_simp
  moreover have "length registry3 = 3" by (simp add: registry3_def)
  ultimately show ?thesis
    using index_construction_complete[OF set_order_remdups, of ucd_latin1 registry3]
    by (simp add: set_order_remdups)
qed

section \<open>The preferred record\<close>

text \<open>
  A record resolves to the preferred region when the body of the \<open>try\<close> gives the
  string \<open>"Sudeste"\<close>; a record on which it raises does not.
\<close>

definition resolves_to_sudeste :: "pydict \<Rightarrow> bool" where
  "resolves_to_sudeste m \<longleftrightarrow> regiao_nome m = Inr (PStr (ustr ''Sudeste''))"

lemma choose_loop_step:
  "choose_loop (m # lista) = (if resolves_to_sudeste m then Some m else choose_loop lista)"
  by (auto simp: resolves_to_sudeste_def split: sum.splits)

lemma choose_loop_None: "choose_loop lista = None \<longleftrightarrow> (\<forall>m \<in> set lista. \<not> resolves_to_sudeste m)"
  by (induction lista) (simp_all add: choose_loop_step del: choose_loop.simps(2))

lemma choose_loop_Some:
  "choose_loop lista = Some m \<Longrightarrow>
     \<exists>i < length lista. lista ! i = m \<and> resolves_to_sudeste m \<and> (\<forall>j < i. \<not> resolves_to_sudeste (lista ! j))"
proof (induction lista)
  case Nil
  then show ?case by simp
next
  case (Cons r lista)
  show ?case
  proof (cases "resolves_to_sudeste r")
    case True
    with Cons.prems have "r = m" by (simp add: choose_loop_step del: choose_loop.simps(2))
    with True have "0 < length (r # lista) \<and> (r # lista) ! 0 = m \<and> resolves_to_sudeste m \<and>
        (\<forall>j < 0. \<not> resolves_to_sudeste ((r # lista) ! j))" by simp
    then show ?thesis by blast
  next
    case False
    with Cons.prems have "choose_loop lista = Some m"
      by (simp add: choose_loop_step del: choose_loop.simps(2))
    from Cons.IH[OF this] obtain i where i: "i < length lista" "lista ! i = m"
      "resolves_to_sudeste m" "\<forall>j < i. \<not> resolves_to_sudeste (lista ! j)" by blast
    have "\<forall>j < Suc i. \<not> resolves_to_sudeste ((r # lista) ! j)"
      using False i(4) by (auto simp: less_Suc_eq_0_disj)
    with i have "Suc i < length (r # lista) \<and> (r # lista) ! Suc i = m \<and> resolves_to_sudeste m \<and>
        (\<forall>j < Suc i. \<not> resolves_to_sudeste ((r # lista) ! j))" by simp
    then show ?thesis by blast
  qed
qed

text \<open>
  Claim C3.  On a non-empty list \<open>_choose_preferred_municipio\<close> does not raise and
  returns an element of the list: the first one, in list order, that resolves to the
  preferred region, the records before it being skipped whether their hierarchy gives
  another region, is missing or makes the access raise; and the first element of the
  list when no record resolves to the preferred region.
\<close>

theorem choose_first_sudeste_or_first:
  assumes "lista \<noteq> []"
  shows "\<exists>i < length lista. choose_preferred_municipio lista = Inr (lista ! i) \<and>
     (if \<exists>m \<in> set lista. resolves_to_sudeste m
      then resolves_to_sudeste (lista ! i) \<and> (\<forall>j < i. \<not> resolves_to_sudeste (lista ! j))
      else i = 0)"
proof (cases "choose_loop lista")
  case None
  then have no: "\<forall>m \<in> set lista. \<not> resolves_to_sudeste m" by (simp add: choose_loop_None)
  from assms obtain r rs where "lista = r # rs" by (cases lista) auto
  with None have "choose_preferred_municipio lista = Inr (lista ! 0)"
    by (simp add: choose_preferred_municipio_def)
  with no assms show ?thesis by auto
next
  case (Some m)
  from choose_loop_Some[OF this] obtain i where i: "i < length lista" "lista ! i = m"
    "resolves_to_sudeste m" "\<forall>j < i. \<not> resolves_to_sudeste (lista ! j)" by blast
  have "\<exists>m \<in> set lista. resolves_to_sudeste m" using i by (metis nth_mem)
  moreover have "choose_preferred_municipio lista = Inr (lista ! i)"
    using Some i by (simp add: choose_preferred_municipio_def)
  ultimately show ?thesis using i by auto
qed

text \<open>A record whose \<open>microrregiao\<close> is a string: the second \<open>get\<close> raises on it.\<close>

definition malformed :: pydict where
  "malformed = [(ustr ''nome'', PStr (ustr ''Santo Andr'' @ [233])),
                (ustr ''microrregiao'', PStr (ustr ''Sudeste''))]"

theorem choose_first_sudeste_or_first_witness:
  "[malformed,
    municipio 2513851 (ustr ''Santo Andr'' @ [233]) (ustr ''PB'') (ustr ''Nordeste''),
    municipio 3547809 (ustr ''Santo Andr'' @ [233]) (ustr ''SP'') (ustr ''Sudeste'')] \<noteq> [] \<and>
   regiao_nome malformed = Inl AttributeError \<and>
   choose_preferred_municipio
     [malformed,
      municipio 2513851 (ustr ''Santo Andr'' @ [233]) (ustr ''PB'') (ustr ''Nordeste''),
      municipio 3547809 (ustr ''Santo Andr'' @ [233]) (ustr ''SP'') (ustr ''Sudeste'')]
     = Inr (municipio 3547809 (ustr ''Santo Andr'' @ [233]) (ustr ''SP'') (ustr ''Sudeste''))"
proof -
  let ?l = "[malformed,
    municipio 2513851 (ustr ''Santo Andr'' @ [233]) (ustr ''PB'') (ustr ''Nordeste''),
    municipio 3547809 (ustr ''Santo Andr'' @ [233]) (ustr ''SP'') (ustr ''Sudeste'')]"
  have r0: "\<not> resolves_to_sudeste (?l ! 0)" unfolding resolves_to_sudeste_def by code_simp
  have r1: "\<not> resolves_to_sudeste (?l ! 1)" unfolding resolves_to_sudeste_def by code_simp
  have r2: "resolves_to_sudeste (?l ! 2)" unfolding resolves_to_sudeste_def by code_simp
  have m: "regiao_nome malformed = Inl AttributeError" by code_simp
  have ne: "?l \<noteq> []" by simp
  from choose_first_sudeste_or_first[OF ne] obtain i where i: "i < length ?l"
    "choose_preferred_municipio ?l = Inr (?l ! i)"
    "if \<exists>m \<in> set ?l. resolves_to_sudeste m
      then resolves_to_sudeste (?l ! i) \<and> (\<forall>j < i. \<not> resolves_to_sudeste (?l ! j))
      else i = 0" by blast
  have ex: "\<exists>m \<in> set ?l. resolves_to_sudeste m" using r2 by simp
  have "i = 0 \<or> i = 1 \<or> i = 2" using i(1) by auto
  with i(3) ex r0 r1 have "i = 2" by auto
  with i(2) m show ?thesis by simp
qed

section \<open>The exact stage\<close>

lemma choose_nonempty:
  assumes "lista \<noteq> []"
  shows "\<exists>r \<in> set lista. choose_preferred_municipio lista = Inr r"
proof (cases "choose_loop lista")
  case None
  with assms show ?thesis
    by (cases lista) (simp_all add: choose_preferred_municipio_def)
next
  case (Some m)
  from choose_loop_Some[OF this] have "m \<in> set lista" by (metis nth_mem)
  with Some show ?thesis by (simp add: choose_preferred_municipio_def)
qed

lemma match_exact:
  assumes "map_of (name_to_municipios self) (normalize_name db x) = Some lista"
  shows "match db self x =
     (case lista of
        [m] \<Rightarrow> (Inr (OK, m), self)
      | _ \<Rightarrow> (case choose_preferred_municipio lista of
                Inl e \<Rightarrow> (Inl e, self)
              | Inr escolhido \<Rightarrow> (Inr (OK, escolhido), self)))"
  using assms by (simp add: match_def)

lemma IbgeIndex_init_single:
  "name_to_municipios (IbgeIndex_init db set_iter [m]) = [(name_key db m, [m])]"
  by (simp add: IbgeIndex_init_def init_step_def defaultdict_getitem_def name_key_def Let_def)

lemma IbgeIndex_init_pair:
  assumes "name_key db r1 = k" "name_key db r2 = k"
  shows "name_to_municipios (IbgeIndex_init db set_iter [r1, r2]) = [(k, [r1, r2])]"
  using assms
  by (simp add: IbgeIndex_init_def init_step_def defaultdict_getitem_def name_key_def Let_def)

lemma normalize_Curitiba:
  "normalize_name ucd_latin1 (PStr (ustr ''Curitiba'')) = ustr ''curitiba''"
  "normalize_name ucd_latin1 (PStr (ustr ''curitiba'')) = ustr ''curitiba''"
  "normalize_name ucd_latin1 (PStr (ustr ''CURITIBA'')) = ustr ''curitiba''"
  by code_simp+

lemma normalize_Santo_Andre:
  "normalize_name ucd_latin1 (PStr (ustr ''Santo Andr'' @ [233])) = ustr ''santo andre''"
  by code_simp

text \<open>
  Claim C2.  When the normalized input is a key of the index, \<open>match\<close> returns \<open>OK\<close> with
  the only record of the group when the group has one record, and \<open>OK\<close> with the record
  \<open>_choose_preferred_municipio\<close> returns on the group when it has more than one; the
  index is as before.  For a registry of one record whose name is \<open>Curitiba\<close>, the inputs
  \<open>Curitiba\<close>, \<open>curitiba\<close> and \<open>CURITIBA\<close> all give \<open>OK\<close> with that record.
\<close>

theorem match_exact_stage:
  "(map_of (name_to_municipios self) (normalize_name db x) = Some lista \<longrightarrow>
      (lista = [m] \<longrightarrow> match db self x = (Inr (OK, m), self)) \<and>
      (1 < length lista \<longrightarrow>
         (\<exists>r. choose_preferred_municipio lista = Inr r \<and> match db self x = (Inr (OK, r), self)))) \<and>
   (dict_get c (ustr ''nome'') (PStr []) = PStr (ustr ''Curitiba'') \<longrightarrow>
      fst (match ucd_latin1 (IbgeIndex_init ucd_latin1 set_iter [c]) (PStr (ustr ''Curitiba'')))
        = Inr (OK, c) \<and>
      fst (match ucd_latin1 (IbgeIndex_init ucd_latin1 set_iter [c]) (PStr (ustr ''curitiba'')))
        = Inr (OK, c) \<and>
      fst (match ucd_latin1 (IbgeIndex_init ucd_latin1 set_iter [c]) (PStr (ustr ''CURITIBA'')))
        = Inr (OK, c))"
proof (intro conjI impI)
  assume "map_of (name_to_municipios self) (normalize_name db x) = Some lista" "lista = [m]"
  then show "match db self x = (Inr (OK, m), self)" by (simp add: match_exact)
next
  assume l: "map_of (name_to_municipios self) (normalize_name db x) = Some lista"
    and n: "1 < length lista"
  then obtain a b rest where ab: "lista = a # b # rest"
    by (cases lista; cases "tl lista") auto
  then have "lista \<noteq> []" by simp
  from choose_nonempty[OF this] obtain r where r: "choose_preferred_municipio lista = Inr r" by blast
  have "match db self x = (Inr (OK, r), self)"
    unfolding match_exact[OF l] using r by (simp add: ab)
  with r show "\<exists>r. choose_preferred_municipio lista = Inr r \<and> match db self x = (Inr (OK, r), self)"
    by blast
next
  assume c: "dict_get c (ustr ''nome'') (PStr []) = PStr (ustr ''Curitiba'')"
  then have k: "name_key ucd_latin1 c = ustr ''curitiba''"
    by (simp add: name_key_def normalize_Curitiba)
  have d: "name_to_municipios (IbgeIndex_init ucd_latin1 set_iter [c]) = [(ustr ''curitiba'', [c])]"
    by (simp add: IbgeIndex_init_single k)
  show "fst (match ucd_latin1 (IbgeIndex_init ucd_latin1 set_iter [c]) (PStr (ustr ''Curitiba'')))
        = Inr (OK, c)"
    by (subst match_exact[where lista = "[c]"]) (simp_all add: d normalize_Curitiba)
  show "fst (match ucd_latin1 (IbgeIndex_init ucd_latin1 set_iter [c]) (PStr (ustr ''curitiba'')))
        = Inr (OK, c)"
    by (subst match_exact[where lista = "[c]"]) (simp_all add: d normalize_Curitiba)
  show "fst (match ucd_latin1 (IbgeIndex_init ucd_latin1 set_iter [c]) (PStr (ustr ''CURITIBA'')))
        = Inr (OK, c)"
    by (subst match_exact[where lista = "[c]"]) (simp_all add: d normalize_Curitiba)
qed

definition curitiba :: pydict where
  "curitiba = municipio 4106902 (ustr ''Curitiba'') (ustr ''PR'') (ustr ''Sul'')"

theorem match_exact_stage_witness:
  "map_of (name_to_municipios (IbgeIndex_init ucd_latin1 remdups registry3))
      (normalize_name ucd_latin1 (PStr (ustr ''CURITIBA''))) = Some [curitiba] \<and>
   match ucd_latin1 (IbgeIndex_init ucd_latin1 remdups registry3) (PStr (ustr ''CURITIBA''))
      = (Inr (OK, curitiba), IbgeIndex_init ucd_latin1 remdups registry3) \<and>
   dict_get curitiba (ustr ''nome'') (PStr []) = PStr (ustr ''Curitiba'') \<and>
   fst (match ucd_latin1 (IbgeIndex_init ucd_latin1 remdups [curitiba]) (PStr (ustr ''curitiba'')))
      = Inr (OK, curitiba)"
proof -
  have a: "map_of (name_to_municipios (IbgeIndex_init ucd_latin1 remdups registry3))
      (normalize_name ucd_latin1 (PStr (ustr ''CURITIBA''))) = Some [curitiba]"
    by code_simp
  have b: "dict_get curitiba (ustr ''nome'') (PStr []) = PStr (ustr ''Curitiba'')"
    by code_simp
  show ?thesis
    using match_exact_stage[of "IbgeIndex_init ucd_latin1 remdups registry3" ucd_latin1
        "PStr (ustr ''CURITIBA'')" "[curitiba]" curitiba curitiba remdups] a b
    by simp
qed

section \<open>Two records with one name\<close>

definition rec_south :: pydict where
  "rec_south = municipio 1 (ustr ''Santo Andr'' @ [233]) (ustr ''RS'') (ustr ''South'')"

definition rec_southeast :: pydict where
  "rec_southeast = municipio 2 (ustr ''Santo Andr'' @ [233]) (ustr ''SP'') (ustr ''Southeast'')"

definition rec_sul :: pydict where
  "rec_sul = municipio 1 (ustr ''Santo Andr'' @ [233]) (ustr ''RS'') (ustr ''Sul'')"

definition rec_sudeste :: pydict where
  "rec_sudeste = municipio 2 (ustr ''Santo Andr'' @ [233]) (ustr ''SP'') (ustr ''Sudeste'')"

text \<open>
  Claim C1, as stated, fails: the region the code prefers is the string \<open>"Sudeste"\<close>.
  With the record of region \<open>"South"\<close> in front of the record of region
  \<open>"Southeast"\<close>, no record resolves to the preferred region and \<open>match\<close> returns the
  first one, the record of region \<open>"South"\<close>.
\<close>

theorem match_southeast_counterexample:
  "name_key ucd_latin1 rec_south = ustr ''santo andre'' \<and>
   name_key ucd_latin1 rec_southeast = ustr ''santo andre'' \<and>
   regiao_nome rec_south = Inr (PStr (ustr ''South'')) \<and>
   regiao_nome rec_southeast = Inr (PStr (ustr ''Southeast'')) \<and>
   fst (match ucd_latin1 (IbgeIndex_init ucd_latin1 remdups [rec_south, rec_southeast])
          (PStr (ustr ''Santo Andr'' @ [233]))) = Inr (OK, rec_south) \<and>
   rec_south \<noteq> rec_southeast"
proof -
  have "name_key ucd_latin1 rec_south = ustr ''santo andre''" by code_simp
  moreover have "name_key ucd_latin1 rec_southeast = ustr ''santo andre''" by code_simp
  moreover have "regiao_nome rec_south = Inr (PStr (ustr ''South''))" by code_simp
  moreover have "regiao_nome rec_southeast = Inr (PStr (ustr ''Southeast''))" by code_simp
  moreover have "fst (match ucd_latin1 (IbgeIndex_init ucd_latin1 remdups [rec_south, rec_southeast])
          (PStr (ustr ''Santo Andr'' @ [233]))) = Inr (OK, rec_south)" by code_simp
  moreover have "rec_south \<noteq> rec_southeast" by code_simp
  ultimately show ?thesis by blast
qed

text \<open>
  Claim C1, amended.  For every registry of exactly two records whose names both
  normalize to \<open>santo andre\<close>, one that resolves to the region \<open>"Sudeste"\<close> and one that
  does not (its region being \<open>"Sul"\<close>, say), \<open>match\<close> on \<open>Santo Andr\'e\<close> returns \<open>OK\<close> with
  the record of region \<open>"Sudeste"\<close>, in both orders of the two records.  This holds
  for every character database in which \<open>Santo Andr\'e\<close> normalizes to \<open>santo andre\<close>.
\<close>

theorem match_prefers_sudeste:
  assumes "name_key db r1 = ustr ''santo andre''"
    and "name_key db r2 = ustr ''santo andre''"
    and "normalize_name db (PStr (ustr ''Santo Andr'' @ [233])) = ustr ''santo andre''"
    and "resolves_to_sudeste r1" and "\<not> resolves_to_sudeste r2"
  shows "fst (match db (IbgeIndex_init db set_iter [r1, r2])
            (PStr (ustr ''Santo Andr'' @ [233]))) = Inr (OK, r1) \<and>
         fst (match db (IbgeIndex_init db set_iter [r2, r1])
            (PStr (ustr ''Santo Andr'' @ [233]))) = Inr (OK, r1)"
proof -
  have c12: "choose_preferred_municipio [r1, r2] = Inr r1"
    using assms(4) by (simp add: choose_preferred_municipio_def choose_loop_step del: choose_loop.simps(2))
  have c21: "choose_preferred_municipio [r2, r1] = Inr r1"
    using assms(4,5) by (simp add: choose_preferred_municipio_def choose_loop_step del: choose_loop.simps(2))
  have "fst (match db (IbgeIndex_init db set_iter [r1, r2])
            (PStr (ustr ''Santo Andr'' @ [233]))) = Inr (OK, r1)"
    by (subst match_exact[where lista = "[r1, r2]"])
       (simp_all add: IbgeIndex_init_pair[OF assms(1,2)] assms(3) c12)
  moreover have "fst (match db (IbgeIndex_init db set_iter [r2, r1])
            (PStr (ustr ''Santo Andr'' @ [233]))) = Inr (OK, r1)"
    by (subst match_exact[where lista = "[r2, r1]"])
       (simp_all add: IbgeIndex_init_pair[OF assms(2,1)] assms(3) c21)
  ultimately show ?thesis by blast
qed

theorem match_prefers_sudeste_witness:
  "name_key ucd_latin1 rec_sudeste = ustr ''santo andre'' \<and>
   name_key ucd_latin1 rec_sul = ustr ''santo andre'' \<and>
   normalize_name ucd_latin1 (PStr (ustr ''Santo Andr'' @ [233])) = ustr ''santo andre'' \<and>
   regiao_nome rec_sudeste = Inr (PStr (ustr ''Sudeste'')) \<and>
   regiao_nome rec_sul = Inr (PStr (ustr ''Sul'')) \<and>
   fst (match ucd_latin1 (IbgeIndex_init ucd_latin1 remdups [rec_sudeste, rec_sul])
          (PStr (ustr ''Santo Andr'' @ [233]))) = Inr (OK, rec_sudeste) \<and>
   fst (match ucd_latin1 (IbgeIndex_init ucd_latin1 remdups [rec_sul, rec_sudeste])
          (PStr (ustr ''Santo Andr'' @ [233]))) = Inr (OK, rec_sudeste)"
proof -
  have k1: "name_key ucd_latin1 rec_sudeste = ustr ''santo andre''" by code_simp
  have k2: "name_key ucd_latin1 rec_sul = ustr ''santo andre''" by code_simp
  have r1: "regiao_nome rec_sudeste = Inr (PStr (ustr ''Sudeste''))" by code_simp
  have r2: "regiao_nome rec_sul = Inr (PStr (ustr ''Sul''))" by code_simp
  have p1: "resolves_to_sudeste rec_sudeste" by (simp add: resolves_to_sudeste_def r1)
  have "ustr ''Sul'' \<noteq> ustr ''Sudeste''" by code_simp
  then have p2: "\<not> resolves_to_sudeste rec_sul" by (simp add: resolves_to_sudeste_def r2)
  from match_prefers_sudeste[OF k1 k2 normalize_Santo_Andre p1 p2, of remdups]
    k1 k2 r1 r2 normalize_Santo_Andre
  show ?thesis by simp
qed

section \<open>The quick ratios are upper bounds\<close>

lemma inter_mset_append:
  "size (A \<inter># B) + size (C \<inter># D) \<le> size ((A + C) \<inter># (B + D))"
proof -
  have "(A \<inter># B) + (C \<inter># D) \<subseteq># (A + C) \<inter># (B + D)"
    unfolding subseteq_mset_def by (auto simp: min_def)
  then have "size ((A \<inter># B) + (C \<inter># D)) \<le> size ((A + C) \<inter># (B + D))"
    by (rule size_mset_mono)
  then show ?thesis by simp
qed

lemma matches_total_le_inter:
  "matches_total popular a b \<le> size (mset a \<inter># mset b)"
proof (induction popular a b rule: matches_total.induct)
  case (1 popular a b)
  obtain i j k where f: "find_longest_match popular a b = (i, j, k)" by (metis prod_cases3)
  have "valid_block a b (i, j, k)"
    using find_longest_match_valid[of a b popular] by (simp add: f)
  then obtain a1 blk a2 b1 b2 where d: "a = a1 @ blk @ a2" "b = b1 @ blk @ b2"
    "length a1 = i" "length b1 = j" "length blk = k"
    unfolding valid_block_def prod.case by blast
  show ?case
  proof (cases "k = 0")
    case True
    with f show ?thesis by (subst matches_total.simps) simp
  next
    case False
    define l where "l = (if 0 < i \<and> 0 < j then matches_total popular (take i a) (take j b) else 0)"
    define r where "r = (if i + k < length a \<and> j + k < length b
        then matches_total popular (drop (i + k) a) (drop (j + k) b) else 0)"
    have ta: "take i a = a1" "take j b = b1" "drop (i + k) a = a2" "drop (j + k) b = b2"
      using d by simp_all
    have "l \<le> size (mset a1 \<inter># mset b1)"
      using "1.IH"(1)[OF f[symmetric] refl False] by (simp add: l_def ta)
    moreover have "r \<le> size (mset a2 \<inter># mset b2)"
      using "1.IH"(2)[OF f[symmetric] refl False] by (simp add: r_def ta)
    moreover have "size (mset a1 \<inter># mset b1) + size (mset blk \<inter># mset blk)
        \<le> size ((mset a1 + mset blk) \<inter># (mset b1 + mset blk))"
      by (rule inter_mset_append)
    moreover have "size ((mset a1 + mset blk) \<inter># (mset b1 + mset blk)) + size (mset a2 \<inter># mset b2)
        \<le> size ((mset a1 + mset blk + mset a2) \<inter># (mset b1 + mset blk + mset b2))"
      by (rule inter_mset_append)
    moreover have "matches_total popular a b = k + l + r"
      using f False by (subst matches_total.simps) (simp add: l_def r_def)
    ultimately show ?thesis
      using d(5) by (simp add: d(1,2) ac_simps)
  qed
qed

lemma quick_loop_inter:
  assumes "\<forall>e. count R e = nat (case avail e of Some n \<Rightarrow> n | None \<Rightarrow> int (count_list b e))"
  shows "quick_loop b avail as matches = matches + size (mset as \<inter># R)"
  using assms
proof (induction as arbitrary: avail R matches)
  case Nil
  then show ?case by simp
next
  case (Cons elt as)
  define numb where "numb = (case avail elt of Some n \<Rightarrow> n | None \<Rightarrow> int (count_list b elt))"
  have cnt: "count R elt = nat numb" using Cons.prems by (simp add: numb_def)
  let ?avail = "avail(elt \<mapsto> numb - 1)"
  have inv: "\<forall>e. count (R - {#elt#}) e
      = nat (case ?avail e of Some n \<Rightarrow> n | None \<Rightarrow> int (count_list b e))"
    using Cons.prems cnt by auto
  have step: "quick_loop b avail (elt # as) matches =
      quick_loop b ?avail as (if numb > 0 then matches + 1 else matches)"
    by (simp add: numb_def Let_def)
  show ?case
  proof (cases "numb > 0")
    case True
    then have "elt \<in># R" using cnt by (simp add: count_greater_zero_iff[symmetric] del: count_greater_zero_iff)
    from cnt True obtain c where c: "count R elt = Suc c"
      by (cases "nat numb") auto
    have eq: "mset (elt # as) \<inter># R = add_mset elt (mset as \<inter># (R - {#elt#}))"
      by (rule multiset_eqI) (auto simp: min_def c)
    have "quick_loop b avail (elt # as) matches = quick_loop b ?avail as (matches + 1)"
      using True by (simp only: step if_True)
    also have "\<dots> = (matches + 1) + size (mset as \<inter># (R - {#elt#}))"
      by (rule Cons.IH[OF inv])
    also have "\<dots> = matches + size (mset (elt # as) \<inter># R)"
      by (simp only: eq) simp
    finally show ?thesis .
  next
    case False
    then have notin: "elt \<notin># R" using cnt by (simp add: count_eq_zero_iff[symmetric] del: count_eq_zero_iff)
    then have r: "R - {#elt#} = R" by simp
    have z: "count R elt = 0" using cnt False by simp
    have eq: "mset (elt # as) \<inter># R = mset as \<inter># R"
      by (rule multiset_eqI) (auto simp: z)
    have "quick_loop b avail (elt # as) matches = quick_loop b ?avail as matches"
      using False by (simp only: step if_False)
    also have "\<dots> = matches + size (mset as \<inter># (R - {#elt#}))"
      by (rule Cons.IH[OF inv])
    finally show ?thesis by (simp only: eq r)
  qed
qed

lemma quick_loop_eq: "quick_loop b Map.empty a 0 = size (mset a \<inter># mset b)"
  using quick_loop_inter[where R = "mset b" and avail = Map.empty and b = b and as = a and matches = 0]
  by (simp add: count_mset)

lemma calculate_ratio_mono: "m \<le> m' \<Longrightarrow> calculate_ratio m len \<le> calculate_ratio m' len"
  by (simp add: calculate_ratio_def divide_right_mono)

lemma ratio_le_quick_ratio: "ratio a b \<le> quick_ratio a b"
  unfolding ratio_def quick_ratio_def quick_loop_eq
  by (rule calculate_ratio_mono) (rule matches_total_le_inter)

lemma quick_ratio_le_real_quick_ratio: "quick_ratio a b \<le> real_quick_ratio a b"
proof -
  have "size (mset a \<inter># mset b) \<le> size (mset a)" "size (mset a \<inter># mset b) \<le> size (mset b)"
    by (rule size_mset_mono, simp)+
  then have "size (mset a \<inter># mset b) \<le> min (length a) (length b)" by simp
  then show ?thesis
    unfolding quick_ratio_def real_quick_ratio_def quick_loop_eq by (rule calculate_ratio_mono)
qed

section \<open>What get_close_matches returns\<close>

text \<open>The candidates that pass the three tests are those whose ratio reaches the cutoff.\<close>

definition retained :: "ustring \<Rightarrow> ustring list \<Rightarrow> rat \<Rightarrow> ustring list" where
  "retained word possibilities cutoff = filter (\<lambda>x. ratio x word \<ge> cutoff) possibilities"

lemma get_close_matches_eq:
  assumes "0 < n" "0 \<le> cutoff" "cutoff \<le> 1"
  shows "get_close_matches word possibilities n cutoff =
     Inr (map snd (take (nat n) (rev (sort (map (\<lambda>x. (ratio x word, x))
            (retained word possibilities cutoff))))))"
proof -
  have "(real_quick_ratio x word \<ge> cutoff \<and> quick_ratio x word \<ge> cutoff \<and> ratio x word \<ge> cutoff)
      \<longleftrightarrow> ratio x word \<ge> cutoff" for x
    using ratio_le_quick_ratio[of x word] quick_ratio_le_real_quick_ratio[of x word] by auto
  then show ?thesis
    using assms by (simp add: get_close_matches_def nlargest_def retained_def)
qed

lemma get_close_matches_Nil:
  assumes "0 < n" "0 \<le> cutoff" "cutoff \<le> 1"
  shows "get_close_matches word possibilities n cutoff = Inr [] \<longleftrightarrow>
           retained word possibilities cutoff = []"
proof -
  have "sort xs = [] \<longleftrightarrow> xs = []" for xs :: "(rat \<times> ustring) list"
    by (metis length_0_conv length_sort)
  moreover from assms(1) obtain n' where "nat n = Suc n'" by (cases "nat n") auto
  ultimately show ?thesis
    using assms by (simp add: get_close_matches_eq)
qed

lemma get_close_matches_Cons:
  assumes "0 < n" "0 \<le> cutoff" "cutoff \<le> 1"
    and "get_close_matches word possibilities n cutoff = Inr (best # rest)"
  shows "best \<in> set (retained word possibilities cutoff) \<and>
     (\<forall>c \<in> set (retained word possibilities cutoff). (ratio c word, c) \<le> (ratio best word, best))"
proof -
  let ?ps = "map (\<lambda>x. (ratio x word, x)) (retained word possibilities cutoff)"
  let ?s = "rev (sort ?ps)"
  from assms have e: "map snd (take (nat n) ?s) = best # rest" by (simp add: get_close_matches_eq)
  then have ne: "?s \<noteq> []" by auto
  then obtain p ps where s: "?s = p # ps" by (cases ?s) auto
  from assms(1) obtain n' where n: "nat n = Suc n'" by (cases "nat n") auto
  from e s n have best: "snd p = best" by simp
  have "p \<in> set ?s" using s by simp
  then have pin: "p \<in> set ?ps" by simp
  then have p: "p = (ratio best word, best)" "best \<in> set (retained word possibilities cutoff)"
    using best by auto
  have sp: "sort ?ps = rev ps @ [p]" using s by (metis rev.simps(2) rev_rev_ident)
  have "sorted (rev ps @ [p])" unfolding sp[symmetric] by simp
  then have le: "\<forall>q \<in> set (rev ps). q \<le> p" by (simp add: sorted_append)
  have "q \<le> p" if "q \<in> set ?ps" for q
  proof -
    from that have "q \<in> set (sort ?ps)" by simp
    then have "q \<in> set (rev ps) \<or> q = p" unfolding sp by auto
    with le show ?thesis by auto
  qed
  then have "(ratio c word, c) \<le> (ratio best word, best)"
    if "c \<in> set (retained word possibilities cutoff)" for c
    using that p(1) by (metis (no_types, lifting) image_eqI list.set_map)
  with p(2) show ?thesis by blast
qed

section \<open>The approximate stage\<close>

text \<open>
  With the constants of \<open>match\<close> (three candidates, cutoff 0.75) the library call does
  not raise, and its first result is the greatest pair of score and key among the
  retained candidates.
\<close>

lemma match_approx:
  assumes "map_of (name_to_municipios self) (normalize_name db x) = None"
  shows "match db self x =
     (case map snd (take 3 (rev (sort (map (\<lambda>c. (ratio c (normalize_name db x), c))
              (retained (normalize_name db x) (normalized_names self) (3 / 4)))))) of
        [] \<Rightarrow> (Inr (NAO_ENCONTRADO, []), self)
      | best # _ \<Rightarrow>
          (let (lista, d) = defaultdict_getitem (name_to_municipios self) best;
               self' = self\<lparr> name_to_municipios := d \<rparr>
           in case lista of
                [m] \<Rightarrow> (Inr (OK, m), self')
              | _ \<Rightarrow> (Inr (NAO_ENCONTRADO, []), self')))"
proof -
  have "get_close_matches (normalize_name db x) (normalized_names self) 3 (3 / 4) =
      Inr (map snd (take 3 (rev (sort (map (\<lambda>c. (ratio c (normalize_name db x), c))
              (retained (normalize_name db x) (normalized_names self) (3 / 4)))))))"
    using get_close_matches_eq[of 3 "3 / 4" "normalize_name db x" "normalized_names self"] by simp
  then show ?thesis using assms by (simp add: match_def Let_def)
qed

lemma match_approx_none:
  assumes "map_of (name_to_municipios self) (normalize_name db x) = None"
    and "retained (normalize_name db x) (normalized_names self) (3 / 4) = []"
  shows "match db self x = (Inr (NAO_ENCONTRADO, []), self)"
  using assms by (simp add: match_approx)

lemma match_approx_some:
  assumes "map_of (name_to_municipios self) (normalize_name db x) = None"
    and "retained (normalize_name db x) (normalized_names self) (3 / 4) \<noteq> []"
  obtains best where
    "best \<in> set (retained (normalize_name db x) (normalized_names self) (3 / 4))"
    "\<forall>c \<in> set (retained (normalize_name db x) (normalized_names self) (3 / 4)).
        (ratio c (normalize_name db x), c) \<le> (ratio best (normalize_name db x), best)"
    "match db self x =
       (let (lista, d) = defaultdict_getitem (name_to_municipios self) best;
            self' = self\<lparr> name_to_municipios := d \<rparr>
        in case lista of
             [m] \<Rightarrow> (Inr (OK, m), self')
           | _ \<Rightarrow> (Inr (NAO_ENCONTRADO, []), self'))"
proof -
  let ?key = "normalize_name db x"
  let ?names = "normalized_names self"
  have e: "get_close_matches ?key ?names 3 (3 / 4) =
      Inr (map snd (take 3 (rev (sort (map (\<lambda>c. (ratio c ?key, c)) (retained ?key ?names (3 / 4)))))))"
    using get_close_matches_eq[of 3 "3 / 4" ?key ?names] by simp
  have "get_close_matches ?key ?names 3 (3 / 4) \<noteq> Inr []"
    using get_close_matches_Nil[of 3 "3 / 4" ?key ?names] assms(2) by simp
  then have "map snd (take 3 (rev (sort (map (\<lambda>c. (ratio c ?key, c)) (retained ?key ?names (3 / 4)))))) \<noteq> []"
    unfolding e by simp
  then obtain best rest where br:
    "map snd (take 3 (rev (sort (map (\<lambda>c. (ratio c ?key, c)) (retained ?key ?names (3 / 4)))))) = best # rest"
    by (meson list.exhaust)
  then have g: "get_close_matches ?key ?names 3 (3 / 4) = Inr (best # rest)" using e by simp
  from get_close_matches_Cons[OF _ _ _ g]
  have "best \<in> set (retained ?key ?names (3 / 4))"
    "\<forall>c \<in> set (retained ?key ?names (3 / 4)). (ratio c ?key, c) \<le> (ratio best ?key, best)"
    by simp_all
  moreover have "match db self x =
       (let (lista, d) = defaultdict_getitem (name_to_municipios self) best;
            self' = self\<lparr> name_to_municipios := d \<rparr>
        in case lista of
             [m] \<Rightarrow> (Inr (OK, m), self')
           | _ \<Rightarrow> (Inr (NAO_ENCONTRADO, []), self'))"
    unfolding match_approx[OF assms(1)] br by simp
  ultimately show ?thesis using that by blast
qed

lemma retained_iff:
  "c \<in> set (retained word names cutoff) \<longleftrightarrow> c \<in> set names \<and> cutoff \<le> ratio c word"
  by (simp add: retained_def)

lemma retained_Nil_iff:
  "retained word names cutoff = [] \<longleftrightarrow> (\<forall>c \<in> set names. ratio c word < cutoff)"
  by (auto simp: retained_def filter_empty_conv not_le)

lemma defaultdict_getitem_Some:
  "map_of d k = Some v \<Longrightarrow> defaultdict_getitem d k = (v, d)"
  by (simp add: defaultdict_getitem_def)

definition curitba :: pyval where
  "curitba = PStr (ustr ''Curitba'')"

lemma registry3_eval:
  "normalize_name ucd_latin1 curitba = ustr ''curitba''"
  "normalized_names (IbgeIndex_init ucd_latin1 remdups registry3)
     = [ustr ''curitiba'', ustr ''santo andre'']"
  "map_of (name_to_municipios (IbgeIndex_init ucd_latin1 remdups registry3)) (ustr ''curitba'') = None"
  "map_of (name_to_municipios (IbgeIndex_init ucd_latin1 remdups registry3)) (ustr ''curitiba'')
     = Some [curitiba]"
  by code_simp+

lemma ratio_eval:
  "ratio (ustr ''curitiba'') (ustr ''curitba'') = 14 / 15"
  "ratio (ustr ''santo andre'') (ustr ''curitba'') = 1 / 9"
  by code_simp+

text \<open>Two different records with the name \<open>Curitiba\<close>.\<close>

definition twins :: "pydict list" where
  "twins = [municipio 1 (ustr ''Curitiba'') (ustr ''PR'') (ustr ''Sul''),
            municipio 2 (ustr ''Curitiba'') (ustr ''XX'') (ustr ''Norte'')]"

lemma twins_eval:
  "normalized_names (IbgeIndex_init ucd_latin1 remdups twins) = [ustr ''curitiba'']"
  "map_of (name_to_municipios (IbgeIndex_init ucd_latin1 remdups twins)) (ustr ''curitba'') = None"
  "map_of (name_to_municipios (IbgeIndex_init ucd_latin1 remdups twins)) (ustr ''curitiba'')
     = Some twins"
  "length twins = 2"
  by code_simp+

section \<open>The index across calls of match\<close>

text \<open>
  \<open>processar_csv\<close> calls \<open>match\<close> once per row on the same index and catches what a call
  raises, so a row that fails does not stop the rows after it.  \<open>match_rows\<close> is that
  sequence of calls: the results in order, and the index after the last one.
\<close>

fun match_rows :: "ucd \<Rightarrow> IbgeIndex \<Rightarrow> pyval list \<Rightarrow> (error + status \<times> pydict) list \<times> IbgeIndex" where
  "match_rows db self [] = ([], self)"
| "match_rows db self (x # xs) =
     (let (res, self') = match db self x;
          (rest, self'') = match_rows db self' xs
      in (res # rest, self''))"

lemma IbgeIndex_init_facts:
  assumes "set_order set_iter"
  shows "municipios (IbgeIndex_init db set_iter ms) = ms"
    and "map_of (name_to_municipios (IbgeIndex_init db set_iter ms)) k =
           (if k \<in> name_key db ` set ms then Some (group_of db ms k) else None)"
    and "set (normalized_names (IbgeIndex_init db set_iter ms)) = name_key db ` set ms"
proof -
  obtain self where i: "index_of db ms ms self"
    and e: "IbgeIndex_init db set_iter ms = self\<lparr> normalized_names := set_iter (map (name_key db) ms) \<rparr>"
    using IbgeIndex_init_index_of by blast
  show "municipios (IbgeIndex_init db set_iter ms) = ms" using i by (simp add: e index_of_def)
  show "map_of (name_to_municipios (IbgeIndex_init db set_iter ms)) k =
           (if k \<in> name_key db ` set ms then Some (group_of db ms k) else None)"
    using i by (simp add: e index_of_def)
  show "set (normalized_names (IbgeIndex_init db set_iter ms)) = name_key db ` set ms"
    using assms by (simp add: e set_order_def)
qed

lemma group_of_nonempty: "k \<in> name_key db ` set ms \<Longrightarrow> group_of db ms k \<noteq> []"
  by (auto simp: group_of_def filter_empty_conv)

lemma group_of_subset: "set (group_of db ms k) \<subseteq> set ms"
  by (auto simp: group_of_def)

lemma match_keeps_index:
  assumes "\<forall>k \<in> set (normalized_names self). map_of (name_to_municipios self) k \<noteq> None"
  shows "snd (match db self x) = self"
proof (cases "map_of (name_to_municipios self) (normalize_name db x)")
  case (Some lista)
  show ?thesis
    unfolding match_exact[OF Some] by (simp split: list.splits sum.splits)
next
  case None
  show ?thesis
  proof (cases "retained (normalize_name db x) (normalized_names self) (3 / 4) = []")
    case True
    then show ?thesis by (simp add: match_approx_none[OF None])
  next
    case False
    from match_approx_some[OF None False] obtain best where
      b: "best \<in> set (retained (normalize_name db x) (normalized_names self) (3 / 4))"
      and m: "match db self x =
         (let (lista, d) = defaultdict_getitem (name_to_municipios self) best;
              self' = self\<lparr> name_to_municipios := d \<rparr>
          in case lista of
               [m] \<Rightarrow> (Inr (OK, m), self')
             | _ \<Rightarrow> (Inr (NAO_ENCONTRADO, []), self'))"
      by blast
    from b have "best \<in> set (normalized_names self)" by (simp add: retained_iff)
    with assms obtain v where "map_of (name_to_municipios self) best = Some v" by auto
    then have "defaultdict_getitem (name_to_municipios self) best = (v, name_to_municipios self)"
      by (rule defaultdict_getitem_Some)
    then show ?thesis unfolding m by (simp split: list.splits)
  qed
qed

lemma match_rows_keeps_index:
  assumes "\<forall>k \<in> set (normalized_names self). map_of (name_to_municipios self) k \<noteq> None"
  shows "snd (match_rows db self xs) = self"
proof (induction xs)
  case Nil
  then show ?case by simp
next
  case (Cons x xs)
  obtain res where r: "match db self x = (res, self)"
    using match_keeps_index[OF assms, of db x] by (cases "match db self x") simp
  obtain rest where "match_rows db self xs = (rest, self)"
    using Cons.IH by (cases "match_rows db self xs") simp
  with r show ?case by simp
qed

lemma built_names_are_keys:
  assumes "set_order set_iter"
  shows "\<forall>k \<in> set (normalized_names (IbgeIndex_init db set_iter ms)).
           map_of (name_to_municipios (IbgeIndex_init db set_iter ms)) k \<noteq> None"
  by (simp add: IbgeIndex_init_facts[OF assms])

text \<open>
  Claim C9.  A call of \<open>match\<close> on an index that \<open>__init__\<close> has built leaves the index as
  it was: the raw list, the dictionary of groups with its keys, and the list of candidate
  keys.  So does every sequence of calls.
\<close>

theorem match_leaves_index_unchanged:
  assumes "set_order set_iter"
  shows "snd (match db (IbgeIndex_init db set_iter ms) x) = IbgeIndex_init db set_iter ms \<and>
         snd (match_rows db (IbgeIndex_init db set_iter ms) xs) = IbgeIndex_init db set_iter ms"
  using match_keeps_index[OF built_names_are_keys[OF assms]]
    match_rows_keeps_index[OF built_names_are_keys[OF assms]]
  by blast

theorem match_leaves_index_unchanged_witness:
  "set_order remdups \<and>
   snd (match ucd_latin1 (IbgeIndex_init ucd_latin1 remdups registry3) curitba)
     = IbgeIndex_init ucd_latin1 remdups registry3 \<and>
   snd (match_rows ucd_latin1 (IbgeIndex_init ucd_latin1 remdups registry3)
          [curitba, PStr (ustr ''Santo Andr'' @ [233]), PNone])
     = IbgeIndex_init ucd_latin1 remdups registry3"
  using match_leaves_index_unchanged[OF set_order_remdups, of ucd_latin1 registry3 curitba
      "[curitba, PStr (ustr ''Santo Andr'' @ [233]), PNone]"]
  by (simp add: set_order_remdups)

text \<open>
  An index that \<open>__init__\<close> did not build: the candidate key \<open>curitiba\<close> has no group.
  The read of the group inserts the key with an empty list.
\<close>

definition stray :: IbgeIndex where
  "stray = \<lparr> municipios = [], name_to_municipios = [], normalized_names = [ustr ''curitiba''] \<rparr>"

lemma match_stray:
  "match ucd_latin1 stray curitba =
     (Inr (NAO_ENCONTRADO, []), stray\<lparr> name_to_municipios := [(ustr ''curitiba'', [])] \<rparr>)"
  by code_simp

text \<open>
  Claim C10.  On an index that \<open>__init__\<close> has built from the list \<open>ms\<close>, \<open>match\<close> does not
  raise; a record returned with \<open>OK\<close> is an element of \<open>ms\<close>; the record returned with
  \<open>NAO_ENCONTRADO\<close> is the empty dictionary; and a key selected by the approximate stage
  is a key of the index whose group is a non-empty list of elements of \<open>ms\<close>.
\<close>

theorem match_result_from_registry:
  assumes "set_order set_iter"
  shows "(\<exists>res. fst (match db (IbgeIndex_init db set_iter ms) x) = Inr res) \<and>
     (\<forall>r. fst (match db (IbgeIndex_init db set_iter ms) x) = Inr (OK, r) \<longrightarrow> r \<in> set ms) \<and>
     (\<forall>r. fst (match db (IbgeIndex_init db set_iter ms) x) = Inr (NAO_ENCONTRADO, r) \<longrightarrow> r = []) \<and>
     (\<forall>best rest.
        map_of (name_to_municipios (IbgeIndex_init db set_iter ms)) (normalize_name db x) = None \<and>
        get_close_matches (normalize_name db x)
          (normalized_names (IbgeIndex_init db set_iter ms)) 3 (3 / 4) = Inr (best # rest) \<longrightarrow>
        (\<exists>lista. map_of (name_to_municipios (IbgeIndex_init db set_iter ms)) best = Some lista \<and>
           lista \<noteq> [] \<and> set lista \<subseteq> set ms))"
proof -
  let ?self = "IbgeIndex_init db set_iter ms"
  let ?key = "normalize_name db x"
  note facts = IbgeIndex_init_facts[OF assms, of db ms]
  have grp: "\<exists>lista. map_of (name_to_municipios ?self) k = Some lista \<and> lista \<noteq> [] \<and> set lista \<subseteq> set ms"
    if "k \<in> set (normalized_names ?self)" for k
    using that by (simp add: facts group_of_nonempty group_of_subset)
  have sel: "\<forall>best rest. map_of (name_to_municipios ?self) ?key = None \<and>
        get_close_matches ?key (normalized_names ?self) 3 (3 / 4) = Inr (best # rest) \<longrightarrow>
        (\<exists>lista. map_of (name_to_municipios ?self) best = Some lista \<and> lista \<noteq> [] \<and> set lista \<subseteq> set ms)"
  proof (intro allI impI)
    fix best rest
    assume "map_of (name_to_municipios ?self) ?key = None \<and>
        get_close_matches ?key (normalized_names ?self) 3 (3 / 4) = Inr (best # rest)"
    then have "get_close_matches ?key (normalized_names ?self) 3 (3 / 4) = Inr (best # rest)" by simp
    from get_close_matches_Cons[OF _ _ _ this]
    have "best \<in> set (retained ?key (normalized_names ?self) (3 / 4))" by simp
    then have "best \<in> set (normalized_names ?self)" by (simp add: retained_iff)
    then show "\<exists>lista. map_of (name_to_municipios ?self) best = Some lista \<and> lista \<noteq> [] \<and> set lista \<subseteq> set ms"
      by (rule grp)
  qed
  have res: "(\<exists>res. fst (match db ?self x) = Inr res) \<and>
     (\<forall>r. fst (match db ?self x) = Inr (OK, r) \<longrightarrow> r \<in> set ms) \<and>
     (\<forall>r. fst (match db ?self x) = Inr (NAO_ENCONTRADO, r) \<longrightarrow> r = [])"
  proof (cases "map_of (name_to_municipios ?self) ?key")
    case (Some lista)
    then have "normalize_name db x \<in> name_key db ` set ms \<and> lista = group_of db ms (normalize_name db x)"
      by (simp add: facts split: if_splits)
    then have l: "lista \<noteq> []" "set lista \<subseteq> set ms"
      using group_of_nonempty[of "normalize_name db x" db ms] group_of_subset[of db ms "normalize_name db x"]
      by simp_all
    from choose_nonempty[OF l(1)] obtain r where r: "r \<in> set lista"
      "choose_preferred_municipio lista = Inr r" by blast
    have "fst (match db ?self x) = Inr (OK, (case lista of [m] \<Rightarrow> m | _ \<Rightarrow> r))"
      unfolding match_exact[OF Some] using r(2) l(1) by (auto split: list.splits)
    moreover have "(case lista of [m] \<Rightarrow> m | _ \<Rightarrow> r) \<in> set lista"
      using r(1) l(1) by (auto split: list.splits)
    ultimately show ?thesis using l(2) by auto
  next
    case None
    show ?thesis
    proof (cases "retained ?key (normalized_names ?self) (3 / 4) = []")
      case True
      then show ?thesis by (simp add: match_approx_none[OF None])
    next
      case False
      from match_approx_some[OF None False] obtain best where
        b: "best \<in> set (retained ?key (normalized_names ?self) (3 / 4))"
        and m: "match db ?self x =
           (let (lista, d) = defaultdict_getitem (name_to_municipios ?self) best;
                self' = ?self\<lparr> name_to_municipios := d \<rparr>
            in case lista of
                 [m] \<Rightarrow> (Inr (OK, m), self')
               | _ \<Rightarrow> (Inr (NAO_ENCONTRADO, []), self'))"
        by blast
      from b have "best \<in> set (normalized_names ?self)" by (simp add: retained_iff)
      from grp[OF this] obtain lista where l:
        "map_of (name_to_municipios ?self) best = Some lista" "lista \<noteq> []" "set lista \<subseteq> set ms"
        by blast
      have "fst (match db ?self x) = (case lista of [m] \<Rightarrow> Inr (OK, m) | _ \<Rightarrow> Inr (NAO_ENCONTRADO, []))"
        unfolding m by (simp add: defaultdict_getitem_Some[OF l(1)] split: list.splits)
      then show ?thesis using l(3) by (auto split: list.splits)
    qed
  qed
  from res sel show ?thesis by blast
qed

theorem match_result_from_registry_witness:
  "set_order remdups \<and>
   fst (match ucd_latin1 (IbgeIndex_init ucd_latin1 remdups registry3) curitba) = Inr (OK, curitiba) \<and>
   curitiba \<in> set registry3"
proof -
  have a: "fst (match ucd_latin1 (IbgeIndex_init ucd_latin1 remdups registry3) curitba) = Inr (OK, curitiba)"
    by code_simp
  with match_result_from_registry[OF set_order_remdups, of ucd_latin1 registry3 curitba]
  have "curitiba \<in> set registry3" by blast
  with a show ?thesis by (simp add: set_order_remdups)
qed

section \<open>normalize_name and its description\<close>

text \<open>
  The five steps as the specification words them.  The last one collapses every run of
  whitespace to a single space, then trims the whitespace at both ends.
\<close>

function collapse_whitespace :: "(cp \<Rightarrow> bool) \<Rightarrow> ustring \<Rightarrow> ustring" where
  "collapse_whitespace sp [] = []"
| "collapse_whitespace sp (c # cs) =
     (if sp c then 32 # collapse_whitespace sp (dropWhile sp cs)
      else c # collapse_whitespace sp cs)"
  by pat_completeness auto
termination
  by (relation "measure (\<lambda>(sp, s). length s)")
     (auto simp: less_Suc_eq_le length_dropWhile_le)

definition trim_whitespace :: "(cp \<Rightarrow> bool) \<Rightarrow> ustring \<Rightarrow> ustring" where
  "trim_whitespace sp s = rev (dropWhile sp (rev (dropWhile sp s)))"

definition normalize_spec :: "ucd \<Rightarrow> ustring \<Rightarrow> ustring" where
  "normalize_spec db s =
     (let decomposed = normalize_NFKD db s;
          unmarked = filter (\<lambda>c. combining db c = 0) decomposed;
          lowered = str_lower db unmarked;
          retained_chars = filter (\<lambda>c. isalnum db c \<or> isspace db c) lowered
      in trim_whitespace (isspace db) (collapse_whitespace (isspace db) retained_chars))"

lemma collapse_no_space:
  "\<forall>c \<in> set w. \<not> sp c \<Longrightarrow> collapse_whitespace sp (w @ s) = w @ collapse_whitespace sp s"
  by (induction w) auto

lemma collapse_dropWhile_head:
  "collapse_whitespace sp (dropWhile sp s) = [] \<or>
   \<not> sp (hd (collapse_whitespace sp (dropWhile sp s)))"
proof (cases "dropWhile sp s")
  case Nil
  show ?thesis unfolding Nil by simp
next
  case (Cons c cs)
  have "\<not> sp (hd (dropWhile sp s))" by (rule hd_dropWhile) (simp add: Cons)
  then have "\<not> sp c" by (simp add: Cons)
  then show ?thesis unfolding Cons by simp
qed

lemma trim_drop_leading:
  assumes "sp 32"
  shows "trim_whitespace sp (collapse_whitespace sp (dropWhile sp s)) =
         trim_whitespace sp (collapse_whitespace sp s)"
proof (cases s)
  case Nil
  then show ?thesis by simp
next
  case (Cons c cs)
  show ?thesis
  proof (cases "sp c")
    case True
    with Cons assms show ?thesis by (simp add: trim_whitespace_def)
  next
    case False
    with Cons show ?thesis by simp
  qed
qed

lemma rtrim_append:
  "rev (dropWhile sp (rev (w @ t))) =
     (if \<forall>c \<in> set t. sp c then rev (dropWhile sp (rev w)) else w @ rev (dropWhile sp (rev t)))"
  by (simp add: dropWhile_append)

lemma rtrim_no_space:
  assumes "\<forall>c \<in> set w. \<not> sp c"
  shows "rev (dropWhile sp (rev w)) = w"
proof -
  have "rev w = [] \<or> \<not> sp (hd (rev w))"
    using assms by (cases w rule: rev_cases) auto
  then have "dropWhile sp (rev w) = rev w" by (simp add: dropWhile_eq_self_iff)
  then show ?thesis by simp
qed

lemma split_from_Nil_iff:
  "split_from sp w s = [] \<longleftrightarrow> w = [] \<and> (\<forall>c \<in> set s. sp c)"
  by (induction s arbitrary: w) auto

lemma split_from_words:
  assumes "\<forall>c \<in> set w. \<not> sp c" "u \<in> set (split_from sp w s)"
  shows "u \<noteq> [] \<and> (\<forall>c \<in> set u. \<not> sp c) \<and> set u \<subseteq> set w \<union> set s"
  using assms
proof (induction s arbitrary: w)
  case Nil
  then have "u = w" "w \<noteq> []" by (simp_all split: if_splits)
  with Nil.prems(1) show ?case by simp
next
  case (Cons c cs)
  show ?case
  proof (cases "sp c")
    case True
    then have "split_from sp w (c # cs) =
        (if w = [] then split_from sp [] cs else w # split_from sp [] cs)" by simp
    with Cons.prems(2) have "(u = w \<and> w \<noteq> []) \<or> u \<in> set (split_from sp [] cs)"
      by (simp split: if_splits)
    then show ?thesis
    proof
      assume "u = w \<and> w \<noteq> []"
      with Cons.prems(1) show ?thesis by blast
    next
      assume u: "u \<in> set (split_from sp [] cs)"
      have "\<forall>c \<in> set ([]::ustring). \<not> sp c" by simp
      from Cons.IH[OF this u]
      have "u \<noteq> []" "\<forall>c \<in> set u. \<not> sp c" "set u \<subseteq> set cs" by simp_all
      then show ?thesis by (simp add: subset_iff)
    qed
  next
    case False
    then have "split_from sp w (c # cs) = split_from sp (w @ [c]) cs" by simp
    with Cons.prems(2) have u: "u \<in> set (split_from sp (w @ [c]) cs)" by simp
    have "\<forall>x \<in> set (w @ [c]). \<not> sp x" using Cons.prems(1) False by simp
    from Cons.IH[OF this u]
    have "u \<noteq> []" "\<forall>c \<in> set u. \<not> sp c" "set u \<subseteq> set (w @ [c]) \<union> set cs" by simp_all
    then show ?thesis by (simp add: subset_iff)
  qed
qed

lemma str_join_Nil_iff:
  "\<forall>u \<in> set ws. u \<noteq> [] \<Longrightarrow> str_join sep ws = [] \<longleftrightarrow> ws = []"
  by (induction sep ws rule: str_join.induct) auto

lemma str_join_Cons:
  "str_join sep (w # ws) = (if ws = [] then w else w @ sep @ str_join sep ws)"
  by (cases ws) auto

text \<open>The whitespace step of the code, with the word being read, is the step of the text.\<close>

lemma join_split_from:
  assumes "sp 32" "\<forall>c \<in> set w. \<not> sp c"
  shows "str_join [32] (split_from sp w s) =
         trim_whitespace sp (collapse_whitespace sp (w @ s))"
  using assms(2)
proof (induction s arbitrary: w)
  case Nil
  then show ?case
    by (simp add: trim_whitespace_def collapse_no_space[where s = "[]", simplified]
        rtrim_no_space dropWhile_eq_self_iff hd_in_set)
next
  case (Cons c cs)
  let ?t = "collapse_whitespace sp (dropWhile sp cs)"
  show ?case
  proof (cases "sp c")
    case False
    then have "\<forall>c \<in> set (w @ [c]). \<not> sp c" using Cons.prems by auto
    from Cons.IH[OF this] False show ?thesis by simp
  next
    case True
    have ih: "str_join [32] (split_from sp [] cs) = trim_whitespace sp (collapse_whitespace sp cs)"
      using Cons.IH[of "[]"] by simp
    have tt: "trim_whitespace sp ?t = trim_whitespace sp (collapse_whitespace sp cs)"
      using trim_drop_leading[where sp = sp and s = cs] assms(1) by simp
    have lead: "dropWhile sp ?t = ?t"
      using collapse_dropWhile_head[of sp cs] by (auto simp: dropWhile_eq_self_iff)
    then have rt: "trim_whitespace sp ?t = rev (dropWhile sp (rev ?t))"
      by (simp add: trim_whitespace_def)
    show ?thesis
    proof (cases "w = []")
      case True
      have "trim_whitespace sp (collapse_whitespace sp (c # cs)) = trim_whitespace sp ?t"
        using \<open>sp c\<close> assms(1) by (simp add: trim_whitespace_def)
      with True \<open>sp c\<close> ih tt show ?thesis by simp
    next
      case False
      then have hdw: "\<not> sp (hd w)" using Cons.prems by (simp add: hd_in_set)
      have words: "\<forall>u \<in> set (split_from sp [] cs). u \<noteq> []"
        using split_from_words[of "[]" sp _ cs] by auto
      have col: "collapse_whitespace sp (w @ c # cs) = w @ 32 # ?t"
        using Cons.prems \<open>sp c\<close> by (simp add: collapse_no_space)
      have "dropWhile sp (w @ 32 # ?t) = w @ 32 # ?t"
        using False hdw by (cases w) auto
      then have "trim_whitespace sp (w @ 32 # ?t) = rev (dropWhile sp (rev (w @ 32 # ?t)))"
        by (simp add: trim_whitespace_def)
      also have "\<dots> = (if \<forall>c \<in> set (32 # ?t). sp c then rev (dropWhile sp (rev w))
                       else w @ rev (dropWhile sp (rev (32 # ?t))))"
        by (rule rtrim_append)
      also have "rev (dropWhile sp (rev w)) = w" by (rule rtrim_no_space[OF Cons.prems])
      also have "rev (dropWhile sp (rev (32 # ?t))) =
          (if \<forall>c \<in> set ?t. sp c then [] else 32 # rev (dropWhile sp (rev ?t)))"
        using rtrim_append[of sp "[32]" ?t] assms(1) by simp
      finally have tr: "trim_whitespace sp (w @ 32 # ?t) =
          (if \<forall>c \<in> set ?t. sp c then w else w @ 32 # trim_whitespace sp ?t)"
        using assms(1) by (simp add: rt)
      have empty: "(\<forall>c \<in> set ?t. sp c) \<longleftrightarrow> split_from sp [] cs = []"
      proof -
        have "(\<forall>c \<in> set ?t. sp c) \<longleftrightarrow> ?t = []"
          using collapse_dropWhile_head[of sp cs] by (cases ?t) auto
        also have "\<dots> \<longleftrightarrow> dropWhile sp cs = []"
        proof (cases "dropWhile sp cs")
          case Nil
          show ?thesis unfolding Nil by simp
        next
          case (Cons a as)
          show ?thesis unfolding Cons by simp
        qed
        also have "\<dots> \<longleftrightarrow> (\<forall>c \<in> set cs. sp c)" by (simp add: dropWhile_eq_Nil_conv)
        finally show ?thesis by (simp add: split_from_Nil_iff)
      qed
      have "str_join [32] (split_from sp w (c # cs)) =
          (if split_from sp [] cs = [] then w else w @ 32 # str_join [32] (split_from sp [] cs))"
        using \<open>sp c\<close> False by (simp add: str_join_Cons)
      then show ?thesis by (simp add: col tr empty ih tt)
    qed
  qed
qed

lemma ustr_space: "ustr '' '' = [32]"
  by (simp add: ustr_def)

lemma normalize_name_refines:
  assumes "isspace db 32"
  shows "normalize_name db (PStr s) = normalize_spec db s"
  using join_split_from[where sp = "isspace db" and w = "[]"] assms
  by (simp add: normalize_name_def normalize_spec_def str_split_def ustr_space Let_def)

lemma normalize_name_not_str:
  "\<forall>s. v \<noteq> PStr s \<Longrightarrow> normalize_name db v = []"
  by (cases v) (simp_all add: normalize_name_def)

lemma normalize_Sao_Goncalo:
  "normalize_name ucd_latin1 (PStr (ustr ''S'' @ [227] @ ustr ''o Gon'' @ [231] @ ustr ''alo''))
     = ustr ''sao goncalo''"
  "normalize_name ucd_latin1 (PStr (ustr ''Sao Goncalo'')) = ustr ''sao goncalo''"
  by code_simp+

text \<open>
  Claim C6.  \<open>normalize_name\<close> gives the empty string on every value that is not a
  string (no exception is modelled, since none can be raised), and on a string the
  result of the five steps in order, the space being a whitespace character.  On
  \<open>S\~ao Gon\c{c}alo\<close> and on \<open>Sao Goncalo\<close> the result is \<open>sao goncalo\<close>.
\<close>

theorem normalize_name_steps:
  assumes "isspace db 32"
  shows "((\<forall>s. v \<noteq> PStr s) \<longrightarrow> normalize_name db v = []) \<and>
     normalize_name db (PStr s) = normalize_spec db s \<and>
     normalize_name ucd_latin1 (PStr (ustr ''S'' @ [227] @ ustr ''o Gon'' @ [231] @ ustr ''alo''))
       = ustr ''sao goncalo'' \<and>
     normalize_name ucd_latin1 (PStr (ustr ''Sao Goncalo'')) = ustr ''sao goncalo''"
proof (intro conjI impI)
  assume "\<forall>s. v \<noteq> PStr s"
  then show "normalize_name db v = []" by (rule normalize_name_not_str)
next
  show "normalize_name db (PStr s) = normalize_spec db s"
    by (rule normalize_name_refines[OF assms])
qed (rule normalize_Sao_Goncalo)+

lemma isspace_latin1_32: "isspace ucd_latin1 32"
  by (simp add: ucd_latin1_def latin1_isspace_def)

theorem normalize_name_steps_witness:
  "isspace ucd_latin1 32 \<and>
   normalize_name ucd_latin1 (PInt 7) = [] \<and>
   normalize_spec ucd_latin1 (ustr ''  S'' @ [227] @ ustr ''o   Gon'' @ [231] @ ustr ''alo! '')
     = ustr ''sao goncalo''"
proof -
  have "normalize_name ucd_latin1 (PStr (ustr ''  S'' @ [227] @ ustr ''o   Gon'' @ [231] @ ustr ''alo! ''))
     = ustr ''sao goncalo''" by code_simp
  moreover have "\<forall>s. PInt 7 \<noteq> PStr s" by simp
  ultimately show ?thesis
    using normalize_name_steps[OF isspace_latin1_32, of "PInt 7"
        "ustr ''  S'' @ [227] @ ustr ''o   Gon'' @ [231] @ ustr ''alo! ''"]
    by (simp add: isspace_latin1_32)
qed

section \<open>normalize_name is idempotent\<close>

text \<open>
  What idempotence needs of the character database.  A character is \<open>stable\<close> when it
  is its own decomposition, has combining class 0, is its own lower case and is not
  the capital sigma.  \<open>lower_image db d\<close> are the characters \<open>str.lower\<close> can put in the
  place of \<open>d\<close>.  The database is \<open>stable_output\<close> when the space is a stable whitespace
  character and every alphanumeric character that is not whitespace and that lower-casing
  can produce from a character of class 0 of a decomposition is stable.
\<close>

definition stable :: "ucd \<Rightarrow> cp \<Rightarrow> bool" where
  "stable db e \<longleftrightarrow>
     decomposition db e = [e] \<and> combining db e = 0 \<and> tolower db e = [e] \<and> e \<noteq> 931"

definition lower_image :: "ucd \<Rightarrow> cp \<Rightarrow> cp set" where
  "lower_image db d = (if d = 931 then {962, 963} else set (tolower db d))"

definition stable_output :: "ucd \<Rightarrow> bool" where
  "stable_output db \<longleftrightarrow>
     isspace db 32 \<and> stable db 32 \<and>
     (\<forall>c d e. d \<in> set (decomposition db c) \<and> combining db d = 0 \<and> e \<in> lower_image db d \<and>
        isalnum db e \<and> \<not> isspace db e \<longrightarrow> stable db e)"

lemma set_canonical_insert: "set (canonical_insert ccc x ys) = insert x (set ys)"
  by (induction ys) auto

lemma set_canonical_order: "set (canonical_order ccc xs) = set xs"
  by (induction xs) (simp_all add: set_canonical_insert)

lemma canonical_order_starters:
  "\<forall>c \<in> set xs. ccc c = 0 \<Longrightarrow> canonical_order ccc xs = xs"
proof (induction xs)
  case Nil
  then show ?case by simp
next
  case (Cons x xs)
  then have "canonical_order ccc xs = xs" "ccc x = 0" by simp_all
  then show ?case by (cases xs) simp_all
qed

lemma set_lower_from:
  "set (lower_from db pre s) \<subseteq> (\<Union>d \<in> set s. lower_image db d)"
proof (induction s arbitrary: pre)
  case Nil
  then show ?case by simp
next
  case (Cons c cs)
  have "set (if c = 931 then [if final_sigma db pre cs then 962 else 963] else tolower db c)
      \<subseteq> lower_image db c"
    by (simp add: lower_image_def)
  with Cons[of "c # pre"] show ?case by auto
qed

lemma lower_from_stable:
  "\<forall>e \<in> set s. tolower db e = [e] \<and> e \<noteq> 931 \<Longrightarrow> lower_from db pre s = s"
  by (induction s arbitrary: pre) simp_all

lemma concat_singletons:
  "\<forall>e \<in> set s. f e = [e] \<Longrightarrow> concat (map f s) = s"
  by (induction s) simp_all

lemma split_from_no_space:
  "\<forall>c \<in> set u. \<not> sp c \<Longrightarrow> split_from sp w (u @ s) = split_from sp (w @ u) s"
  by (induction u arbitrary: w) simp_all

lemma split_join:
  assumes "sp 32" "\<forall>u \<in> set ws. u \<noteq> [] \<and> (\<forall>c \<in> set u. \<not> sp c)"
  shows "split_from sp [] (str_join [32] ws) = ws"
  using assms(2)
proof (induction ws)
  case Nil
  then show ?case by simp
next
  case (Cons u ws)
  then have u: "u \<noteq> []" "\<forall>c \<in> set u. \<not> sp c" by simp_all
  show ?case
  proof (cases ws)
    case Nil
    have "split_from sp [] (u @ []) = split_from sp ([] @ u) []"
      by (rule split_from_no_space[OF u(2)])
    with u(1) Nil show ?thesis by simp
  next
    case (Cons v vs)
    have ih: "split_from sp [] (str_join [32] ws) = ws" using Cons.prems Cons.IH by simp
    have "split_from sp [] (u @ 32 # str_join [32] ws) = split_from sp ([] @ u) (32 # str_join [32] ws)"
      by (rule split_from_no_space[OF u(2)])
    also have "\<dots> = u # split_from sp [] (str_join [32] ws)" using assms(1) u(1) by simp
    finally show ?thesis using Cons ih by simp
  qed
qed

lemma set_str_join:
  "set (str_join sep ws) \<subseteq> set sep \<union> (\<Union>u \<in> set ws. set u)"
  by (induction sep ws rule: str_join.induct) auto

text \<open>Every character of a normalized name is the space or a stable alphanumeric.\<close>

lemma normalized_chars:
  assumes "stable_output db" "u \<in> set (str_split db (filter (\<lambda>c. isalnum db c \<or> isspace db c)
      (str_lower db (filter (\<lambda>c. combining db c = 0) (normalize_NFKD db s)))))"
  shows "u \<noteq> [] \<and> (\<forall>e \<in> set u. \<not> isspace db e \<and> isalnum db e \<and> stable db e)"
proof -
  let ?t = "filter (\<lambda>c. combining db c = 0) (normalize_NFKD db s)"
  let ?cleaned = "filter (\<lambda>c. isalnum db c \<or> isspace db c) (str_lower db ?t)"
  have "\<forall>c \<in> set ([]::ustring). \<not> isspace db c" by simp
  from split_from_words[OF this assms(2)[unfolded str_split_def]]
  have u: "u \<noteq> []" "\<forall>e \<in> set u. \<not> isspace db e" "set u \<subseteq> set ?cleaned" by simp_all
  have "stable db e \<and> isalnum db e" if "e \<in> set u" for e
  proof -
    from that u have e: "\<not> isspace db e" "e \<in> set ?cleaned" by auto
    then have al: "isalnum db e" and "e \<in> set (str_lower db ?t)" by auto
    then obtain d where d: "d \<in> set ?t" "e \<in> lower_image db d"
      using set_lower_from[of db "[]" ?t] by (auto simp: str_lower_def)
    from d(1) have "combining db d = 0" "d \<in> set (concat (map (decomposition db) s))"
      by (simp_all add: normalize_NFKD_def set_canonical_order)
    then obtain c where "d \<in> set (decomposition db c)" by auto
    with \<open>combining db d = 0\<close> d(2) al e(1) assms(1) have "stable db e"
      unfolding stable_output_def by blast
    with al show ?thesis by simp
  qed
  with u show ?thesis by blast
qed

lemma normalize_name_idem:
  assumes "stable_output db"
  shows "normalize_name db (PStr (normalize_name db (PStr s))) = normalize_name db (PStr s)"
proof -
  define ws where "ws = str_split db (filter (\<lambda>c. isalnum db c \<or> isspace db c)
      (str_lower db (filter (\<lambda>c. combining db c = 0) (normalize_NFKD db s))))"
  define y where "y = str_join [32] ws"
  have sp32: "isspace db 32" and st32: "stable db 32"
    using assms by (simp_all add: stable_output_def)
  have y: "normalize_name db (PStr s) = y"
    by (simp add: normalize_name_def ustr_space Let_def ws_def y_def)
  have words: "u \<noteq> [] \<and> (\<forall>e \<in> set u. \<not> isspace db e \<and> isalnum db e \<and> stable db e)"
    if "u \<in> set ws" for u
    using normalized_chars[OF assms, of u s] that unfolding ws_def by blast
  have chars: "stable db e \<and> (isalnum db e \<or> isspace db e)" if "e \<in> set y" for e
  proof -
    have "set y \<subseteq> set [32] \<union> (\<Union>u \<in> set ws. set u)"
      unfolding y_def by (rule set_str_join)
    with that have "e = 32 \<or> (\<exists>u \<in> set ws. e \<in> set u)" by auto
    then show ?thesis
    proof
      assume "e = 32"
      with sp32 st32 show ?thesis by simp
    next
      assume "\<exists>u \<in> set ws. e \<in> set u"
      then obtain u where "u \<in> set ws" "e \<in> set u" by blast
      with words[of u] show ?thesis by blast
    qed
  qed
  have st: "\<forall>e \<in> set y. decomposition db e = [e]"
    "\<forall>e \<in> set y. combining db e = 0"
    "\<forall>e \<in> set y. tolower db e = [e] \<and> e \<noteq> 931"
    "\<forall>e \<in> set y. isalnum db e \<or> isspace db e"
    using chars unfolding stable_def by blast+
  have dec: "concat (map (decomposition db) y) = y"
    by (rule concat_singletons[OF st(1)])
  have nfkd: "normalize_NFKD db y = y"
    unfolding normalize_NFKD_def dec by (rule canonical_order_starters[OF st(2)])
  have unm: "filter (\<lambda>c. combining db c = 0) y = y"
    by (rule filter_True[OF st(2)])
  have low: "str_lower db y = y"
    unfolding str_lower_def by (rule lower_from_stable[OF st(3)])
  have cl: "filter (\<lambda>c. isalnum db c \<or> isspace db c) y = y"
    by (rule filter_True[OF st(4)])
  have "\<forall>u \<in> set ws. u \<noteq> [] \<and> (\<forall>c \<in> set u. \<not> isspace db c)"
    using words by blast
  then have sj: "str_split db y = ws"
    unfolding str_split_def y_def using split_join[where sp = "isspace db" and ws = ws] sp32
    by blast
  have "normalize_name db (PStr y) = str_join [32] (str_split db y)"
    by (simp add: normalize_name_def ustr_space Let_def nfkd unm low cl)
  also have "\<dots> = y" by (subst sj) (simp only: y_def)
  finally show ?thesis by (simp only: y)
qed

lemma normalize_name_word:
  assumes "y \<noteq> []" "\<forall>e \<in> set y. stable db e \<and> isalnum db e \<and> \<not> isspace db e"
  shows "normalize_name db (PStr y) = y"
proof -
  have st: "\<forall>e \<in> set y. decomposition db e = [e]"
    "\<forall>e \<in> set y. combining db e = 0"
    "\<forall>e \<in> set y. tolower db e = [e] \<and> e \<noteq> 931"
    "\<forall>e \<in> set y. isalnum db e \<or> isspace db e"
    "\<forall>e \<in> set y. \<not> isspace db e"
    using assms(2) unfolding stable_def by blast+
  have dec: "concat (map (decomposition db) y) = y"
    by (rule concat_singletons[OF st(1)])
  have nfkd: "normalize_NFKD db y = y"
    unfolding normalize_NFKD_def dec by (rule canonical_order_starters[OF st(2)])
  have unm: "filter (\<lambda>c. combining db c = 0) y = y"
    by (rule filter_True[OF st(2)])
  have low: "str_lower db y = y"
    unfolding str_lower_def by (rule lower_from_stable[OF st(3)])
  have cl: "filter (\<lambda>c. isalnum db c \<or> isspace db c) y = y"
    by (rule filter_True[OF st(4)])
  have "split_from (isspace db) [] (y @ []) = split_from (isspace db) ([] @ y) []"
    by (rule split_from_no_space[OF st(5)])
  then have sj: "str_split db y = [y]"
    using assms(1) by (simp add: str_split_def)
  show ?thesis
    by (simp add: normalize_name_def ustr_space Let_def nfkd unm low cl sj)
qed

text \<open>
  Claim C7.  \<open>normalize_name\<close> applied to its own result gives that result, for every
  input, string or not, when the character database has a stable output alphabet.
\<close>

theorem normalize_name_idempotent:
  assumes "stable_output db"
  shows "normalize_name db (PStr (normalize_name db x)) = normalize_name db x"
proof (cases x)
  case (PStr s)
  then show ?thesis by (simp add: normalize_name_idem[OF assms])
qed (simp_all add: normalize_name_def normalize_NFKD_def str_lower_def str_split_def Let_def)

text \<open>The tables of Basic Latin and Latin-1 have a stable output alphabet.\<close>

lemmas latin1_tables = ucd_latin1_def latin1_decomposition_def latin1_marks_def latin1_base_def
  latin1_combining_def latin1_tolower_def latin1_isalnum_def latin1_isspace_def

lemma latin1_stable_ascii:
  assumes "e < 160" "\<not> (65 \<le> e \<and> e \<le> 90)"
  shows "stable ucd_latin1 e"
  using assms by (simp add: stable_def latin1_tables)

lemma latin1_lower_ascii:
  assumes "d < 160" "e \<in> lower_image ucd_latin1 d"
  shows "stable ucd_latin1 e"
proof -
  from assms have "e = (if 65 \<le> d \<and> d \<le> 90 then d + 32 else d)"
    by (simp add: lower_image_def latin1_tables split: if_splits)
  with assms(1) have "e < 160" "\<not> (65 \<le> e \<and> e \<le> 90)" by (auto split: if_splits)
  then show ?thesis by (rule latin1_stable_ascii)
qed

lemma latin1_base_ascii: "latin1_base c < 160"
  by (simp add: latin1_base_def)

lemma latin1_marks_combining: "latin1_marks c \<noteq> 0 \<Longrightarrow> latin1_combining (latin1_marks c) \<noteq> 0"
  by (simp add: latin1_marks_def latin1_combining_def split: if_splits)

lemma latin1_decomposition_cases:
  "latin1_decomposition c = [c] \<or>
   (\<forall>d \<in> set (latin1_decomposition c). d < 160 \<or> d = 956 \<or> d = 8260 \<or> latin1_combining d \<noteq> 0)"
proof (cases "latin1_marks c \<noteq> 0")
  case True
  then show ?thesis
    using latin1_base_ascii[of c] latin1_marks_combining[of c]
    by (simp add: latin1_decomposition_def)
next
  case False
  then show ?thesis
    by (simp add: latin1_decomposition_def latin1_combining_def)
qed

lemma latin1_unmarked_capitals:
  "\<forall>c \<in> set [192..<223]. latin1_marks c = 0 \<longrightarrow> c \<in> {198, 208, 215, 216, 222}"
  by (simp add: latin1_marks_def upt_rec_numeral)

lemma latin1_self_decomposed:
  assumes "latin1_decomposition c = [c]" "e \<in> lower_image ucd_latin1 c" "isalnum ucd_latin1 e"
  shows "stable ucd_latin1 e"
proof (cases "c < 160")
  case True
  from True assms(2) show ?thesis by (rule latin1_lower_ascii)
next
  case False
  note big = False
  show ?thesis
  proof (cases "192 \<le> c \<and> c \<le> 222 \<and> c \<noteq> 215")
    case True
    have "latin1_marks c = 0"
      using assms(1) big True by (auto simp: latin1_decomposition_def split: if_splits)
    moreover have "c \<in> {192..<223}" using True by simp
    then have "c \<in> set [192..<223]" by (simp only: set_upt)
    ultimately have "c \<in> {198, 208, 215, 216, 222}"
      using latin1_unmarked_capitals by blast
    with True have c: "c = 198 \<or> c = 208 \<or> c = 216 \<or> c = 222" by auto
    from assms(2) True have "e = c + 32" by (simp add: lower_image_def latin1_tables)
    with c have "e = 230 \<or> e = 240 \<or> e = 248 \<or> e = 254" by auto
    then show ?thesis
      by (elim disjE) (simp_all add: stable_def latin1_tables)
  next
    case False
    show ?thesis
    proof (cases "c = 931")
      case True
      with assms(2) have "e = 962 \<or> e = 963" by (simp add: lower_image_def)
      with assms(3) show ?thesis by (auto simp: latin1_tables)
    next
      case n931: False
      with assms(2) False big have e: "e = c"
        by (simp add: lower_image_def latin1_tables split: if_splits)
      have "c \<le> 255 \<or> c = 956" using assms(3) e by (auto simp: latin1_tables)
      then have "latin1_combining c = 0" by (auto simp: latin1_combining_def)
      moreover have "latin1_tolower c = [c]" using False big by (simp add: latin1_tolower_def)
      ultimately show ?thesis
        using assms(1) n931 by (simp add: stable_def e ucd_latin1_def)
    qed
  qed
qed

lemma stable_output_latin1: "stable_output ucd_latin1"
proof -
  have s32: "isspace ucd_latin1 32 \<and> stable ucd_latin1 32"
    by (simp add: stable_def latin1_tables)
  have s956: "stable ucd_latin1 956"
    by (simp add: stable_def latin1_tables)
  have "stable ucd_latin1 e"
    if d: "d \<in> set (decomposition ucd_latin1 c)" "combining ucd_latin1 d = 0"
      and e: "e \<in> lower_image ucd_latin1 d" "isalnum ucd_latin1 e" for c d e
  proof -
    from d have dd: "d \<in> set (latin1_decomposition c)" "latin1_combining d = 0"
      by (simp_all add: ucd_latin1_def)
    from latin1_decomposition_cases[of c] dd
    have "d = c \<and> latin1_decomposition c = [c] \<or> d < 160 \<or> d = 956 \<or> d = 8260" by auto
    then show ?thesis
    proof (elim disjE conjE)
      assume "d = c" "latin1_decomposition c = [c]"
      with e show ?thesis using latin1_self_decomposed[of c e] by simp
    next
      assume "d < 160"
      then show ?thesis using e(1) by (rule latin1_lower_ascii)
    next
      assume "d = 956"
      with e(1) have "e = 956" by (simp add: lower_image_def latin1_tables)
      with s956 show ?thesis by simp
    next
      assume "d = 8260"
      with e(1) have "e = 8260" by (simp add: lower_image_def latin1_tables)
      with e(2) show ?thesis by (simp add: latin1_tables)
    qed
  qed
  with s32 show ?thesis unfolding stable_output_def by blast
qed

theorem normalize_name_idempotent_witness:
  "stable_output ucd_latin1 \<and>
   normalize_name ucd_latin1 (PStr (ustr '' S'' @ [195] @ ustr ''O  Gon'' @ [231] @ ustr ''alo-RJ ''))
     = ustr ''sao goncalorj'' \<and>
   normalize_name ucd_latin1 (PStr (ustr ''sao goncalorj'')) = ustr ''sao goncalorj''"
proof -
  have e: "normalize_name ucd_latin1 (PStr (ustr '' S'' @ [195] @ ustr ''O  Gon'' @ [231] @ ustr ''alo-RJ ''))
     = ustr ''sao goncalorj''" by code_simp
  from normalize_name_idempotent[OF stable_output_latin1,
      of "PStr (ustr '' S'' @ [195] @ ustr ''O  Gon'' @ [231] @ ustr ''alo-RJ '')"]
  have "normalize_name ucd_latin1 (PStr (ustr ''sao goncalorj'')) = ustr ''sao goncalorj''"
    unfolding e .
  with e stable_output_latin1 show ?thesis by blast
qed

section \<open>The score of the specification\<close>

text \<open>
  The specification scores two strings by \<open>2 * M / T\<close>, where \<open>M\<close> adds up the blocks
  found by taking a longest common contiguous block and going on in the parts to its
  left and to its right.  That is the search of the sequence matcher with no popular
  element; among the longest blocks it takes the one that starts first in the candidate,
  then first in the word.
\<close>

definition spec_score :: "ustring \<Rightarrow> ustring \<Rightarrow> rat" where
  "spec_score a b = calculate_ratio (matches_total (\<lambda>_. False) a b) (length a + length b)"

lemma seeded_prefix_plain: "seeded_prefix (\<lambda>_. False) xs ys = common_prefix xs ys"
  by (induction xs ys rule: common_prefix.induct) simp_all

lemma common_prefix_append: "length p \<le> common_prefix (p @ xs) (p @ ys)"
  by (induction p) simp_all

lemma best_row_size:
  "snd (snd best) \<le> snd (snd (best_row i j ks best))"
  "k \<in> set ks \<Longrightarrow> k \<le> snd (snd (best_row i j ks best))"
proof -
  have "snd (snd best) \<le> snd (snd (best_row i j ks best)) \<and>
        (\<forall>k \<in> set ks. k \<le> snd (snd (best_row i j ks best)))"
  proof (induction ks arbitrary: j best)
    case Nil
    then show ?case by simp
  next
    case (Cons k ks)
    obtain bi bj bs where best: "best = (bi, bj, bs)" by (cases best) auto
    define best' where "best' = (if k > bs then (i + 1 - k, j + 1 - k, k) else (bi, bj, bs))"
    have step: "best_row i j (k # ks) best = best_row i (Suc j) ks best'"
      by (simp add: best best'_def)
    have "bs \<le> snd (snd best')" "k \<le> snd (snd best')" by (simp_all add: best'_def)
    with Cons.IH[where j = "Suc j" and best = best'] show ?case
      unfolding step by (auto simp: best)
  qed
  then show "snd (snd best) \<le> snd (snd (best_row i j ks best))"
    "k \<in> set ks \<Longrightarrow> k \<le> snd (snd (best_row i j ks best))" by blast+
qed

lemma flm_loop_size_mono:
  "snd (snd best) \<le> snd (snd (flm_loop popular b i as j2len best))"
proof (induction as arbitrary: i j2len best)
  case Nil
  then show ?case by simp
next
  case (Cons ai as)
  have "snd (snd best) \<le> snd (snd (best_row i 0 (new_row popular ai b j2len) best))"
    by (rule best_row_size(1))
  also have "\<dots> \<le> snd (snd (flm_loop popular b (Suc i) as (new_row popular ai b j2len)
      (best_row i 0 (new_row popular ai b j2len) best)))"
    by (rule Cons.IH)
  finally show ?case by (simp add: Let_def)
qed

lemma flm_loop_covers:
  assumes "k \<in> set (row_of popular (pre @ r1 @ [ai]) b)"
  shows "k \<le> snd (snd (flm_loop popular b (length pre) (r1 @ ai # r2) (row_of popular pre b) best))"
  using assms
proof (induction r1 arbitrary: pre best)
  case Nil
  let ?row = "row_of popular (pre @ [ai]) b"
  have "k \<le> snd (snd (best_row (length pre) 0 ?row best))"
    using Nil by (intro best_row_size(2)) simp
  also have "\<dots> \<le> snd (snd (flm_loop popular b (Suc (length pre)) r2 ?row
      (best_row (length pre) 0 ?row best)))"
    by (rule flm_loop_size_mono)
  finally show ?case by (simp add: new_row_row_of Let_def)
next
  case (Cons x r1)
  let ?row = "row_of popular (pre @ [x]) b"
  have "k \<in> set (row_of popular ((pre @ [x]) @ r1 @ [ai]) b)" using Cons.prems by simp
  from Cons.IH[OF this, of "best_row (length pre) 0 ?row best"]
  show ?case by (simp add: new_row_row_of Let_def)
qed

text \<open>With no popular element the block \<open>find_longest_match\<close> returns is a longest one.\<close>

lemma find_longest_match_longest:
  assumes "valid_block a b (i, j, k)"
  shows "k \<le> snd (snd (find_longest_match (\<lambda>_. False) a b))"
proof (cases "k = 0")
  case True
  then show ?thesis by simp
next
  case False
  from assms obtain a1 blk a2 b1 b2 where d: "a = a1 @ blk @ a2" "b = b1 @ blk @ b2"
    "length blk = k"
    unfolding valid_block_def prod.case by blast
  from False d(3) obtain blk' z where blk: "blk = blk' @ [z]"
    by (cases blk rule: rev_cases) auto
  define n where "n = length (b1 @ blk')"
  have nb: "n < length b" by (simp add: n_def d(2) blk)
  have tk: "take (Suc n) b = b1 @ blk" by (simp add: n_def d(2) blk)
  let ?row = "row_of (\<lambda>_. False) ([] @ (a1 @ blk') @ [z]) b"
  have "?row ! n = common_prefix (rev blk @ rev a1) (rev blk @ rev b1)"
    using nb by (simp add: row_of_def tk seeded_prefix_plain blk)
  then have "k \<le> ?row ! n"
    using common_prefix_append[of "rev blk" "rev a1" "rev b1"] d(3) by simp
  moreover have "?row ! n \<in> set ?row" using nb by (simp add: row_of_def)
  then have "?row ! n \<le> snd (snd (flm_loop (\<lambda>_. False) b (length ([]::ustring))
      ((a1 @ blk') @ z # a2) (row_of (\<lambda>_. False) [] b) (0, 0, 0)))"
    by (rule flm_loop_covers)
  moreover have "(a1 @ blk') @ z # a2 = a" by (simp add: d(1) blk)
  ultimately have le: "k \<le> snd (snd (flm_loop (\<lambda>_. False) b 0 a (replicate (length b) 0) (0, 0, 0)))"
    by (simp add: row_of_Nil)
  obtain bi bj bs where l: "flm_loop (\<lambda>_. False) b 0 a (replicate (length b) 0) (0, 0, 0) = (bi, bj, bs)"
    by (metis prod_cases3)
  have "bs \<le> snd (snd (find_longest_match (\<lambda>_. False) a b))"
    by (simp add: find_longest_match_def l Let_def)
  with le l show ?thesis by simp
qed

lemma matches_total_ge_block:
  assumes "valid_block a b (i, j, k)"
  shows "k \<le> matches_total (\<lambda>_. False) a b"
proof -
  obtain i0 j0 k0 where f: "find_longest_match (\<lambda>_. False) a b = (i0, j0, k0)"
    by (metis prod_cases3)
  from find_longest_match_longest[OF assms] f have "k \<le> k0" by simp
  moreover have "k0 \<le> matches_total (\<lambda>_. False) a b"
    by (subst matches_total.simps) (simp add: f)
  ultimately show ?thesis by simp
qed

text \<open>
  A word of fewer than 200 characters has no popular character: the score the code
  computes is then the score of the specification.
\<close>

lemma bpopular_short: "length b < 200 \<Longrightarrow> bpopular b = (\<lambda>_. False)"
  by (simp add: bpopular_def fun_eq_iff)

lemma ratio_short: "length b < 200 \<Longrightarrow> ratio a b = spec_score a b"
  by (simp add: ratio_def spec_score_def bpopular_short)

subsection \<open>A word of 200 characters\<close>

text \<open>
  When every character the candidate shares with the word is popular in the word, no
  block is started, and the search finds the common prefix of the two strings only.
\<close>

lemma new_row_zeros:
  assumes "\<forall>y \<in> set b. y = ai \<longrightarrow> popular y"
  shows "new_row popular ai b (replicate (length b) 0) = replicate (length b) 0"
proof (rule nth_equalityI)
  show "length (new_row popular ai b (replicate (length b) 0)) = length (replicate (length b) (0::nat))"
    by (simp add: new_row_def)
next
  fix n assume "n < length (new_row popular ai b (replicate (length b) 0))"
  then have n: "n < length b" by (simp add: new_row_def)
  then have "b ! n \<in> set b" by simp
  with assms have "b ! n = ai \<longrightarrow> popular (b ! n)" by blast
  then show "new_row popular ai b (replicate (length b) 0) ! n = replicate (length b) 0 ! n"
    using n by (auto simp: new_row_def)
qed

lemma best_row_zeros: "best_row i j (replicate n 0) best = best"
proof (induction n arbitrary: j)
  case 0
  then show ?case by simp
next
  case (Suc n)
  obtain bi bj bs where "best = (bi, bj, bs)" by (cases best) auto
  with Suc show ?case by simp
qed

lemma flm_loop_zeros:
  assumes "\<forall>x \<in> set as. \<forall>y \<in> set b. y = x \<longrightarrow> popular y"
  shows "flm_loop popular b i as (replicate (length b) 0) best = best"
  using assms
proof (induction as arbitrary: i)
  case Nil
  then show ?case by simp
next
  case (Cons ai as)
  then have "new_row popular ai b (replicate (length b) 0) = replicate (length b) 0"
    by (intro new_row_zeros) simp
  with Cons show ?case by (simp add: best_row_zeros)
qed

lemma matches_total_all_popular:
  assumes "\<forall>x \<in> set a. \<forall>y \<in> set b. y = x \<longrightarrow> popular y" "common_prefix a b = 0"
  shows "matches_total popular a b = 0"
proof -
  have "find_longest_match popular a b = (0, 0, 0)"
    by (simp add: find_longest_match_def flm_loop_zeros[OF assms(1)] assms(2))
  then show ?thesis by (subst matches_total.simps) simp
qed

text \<open>
  The word is \<open>x\<close> followed by 199 times \<open>a\<close>, the name in the registry 199 times \<open>a\<close>
  followed by \<open>y\<close>.  They share a block of 199 characters.
\<close>

definition long_input :: ustring where
  "long_input = 120 # replicate 199 97"

definition long_name :: ustring where
  "long_name = 97 # replicate 198 97 @ [121]"

definition long_rec :: pydict where
  "long_rec = municipio 1 long_name (ustr ''SP'') (ustr ''Sudeste'')"

lemma replicate_199: "replicate 199 x = x # replicate 198 x"
proof -
  have "replicate (Suc 198) x = x # replicate 198 x" by (rule replicate_Suc)
  then show ?thesis by simp
qed

lemma count_list_replicate: "count_list (replicate n x) x = n"
  by (induction n) simp_all

lemma long_lengths: "length long_input = 200" "length long_name = 200"
  by (simp_all add: long_input_def long_name_def)

lemma long_sets: "set long_input = {120, 97}" "set long_name = {97, 121}"
  by (auto simp: long_input_def long_name_def)

lemma long_popular: "bpopular long_input y \<longleftrightarrow> y = 97"
proof -
  have "count_list long_input y = (if y = 97 then 199 else if y = 120 then 1 else 0)"
    by (auto simp: long_input_def count_list_replicate count_list_0_iff)
  then show ?thesis by (simp add: bpopular_def long_lengths)
qed

lemma long_ratio: "ratio long_name long_input = 0"
proof -
  have "\<forall>x \<in> set long_name. \<forall>y \<in> set long_input. y = x \<longrightarrow> bpopular long_input y"
    by (simp add: long_sets long_popular)
  moreover have "common_prefix long_name long_input = 0"
    by (simp add: long_name_def long_input_def)
  ultimately have m0: "matches_total (bpopular long_input) long_name long_input = 0"
    by (rule matches_total_all_popular)
  show ?thesis unfolding ratio_def m0 by (simp add: calculate_ratio_def long_lengths)
qed

lemma long_block: "valid_block long_name long_input (0, 1, 199)"
proof -
  have "long_name = [] @ replicate 199 97 @ [121]" by (simp add: long_name_def replicate_199)
  moreover have "long_input = [120] @ replicate 199 97 @ []" by (simp add: long_input_def)
  moreover have "length ([]::ustring) = 0" "length [120::nat] = 1" "length (replicate 199 (97::nat)) = 199"
    by simp_all
  ultimately show ?thesis unfolding valid_block_def prod.case by blast
qed

lemma long_spec_score: "3 / 4 \<le> spec_score long_name long_input"
proof -
  have "calculate_ratio 199 400 \<le> calculate_ratio (matches_total (\<lambda>_. False) long_name long_input) 400"
    by (rule calculate_ratio_mono) (rule matches_total_ge_block[OF long_block])
  moreover have "(3 / 4 :: rat) \<le> calculate_ratio 199 400" by (simp add: calculate_ratio_def)
  ultimately show ?thesis by (simp add: spec_score_def long_lengths)
qed

lemma latin1_stable_axy:
  "stable ucd_latin1 97 \<and> isalnum ucd_latin1 97 \<and> \<not> isspace ucd_latin1 97"
  "stable ucd_latin1 120 \<and> isalnum ucd_latin1 120 \<and> \<not> isspace ucd_latin1 120"
  "stable ucd_latin1 121 \<and> isalnum ucd_latin1 121 \<and> \<not> isspace ucd_latin1 121"
  by (simp_all add: stable_def ucd_latin1_def latin1_decomposition_def latin1_combining_def
      latin1_tolower_def latin1_isalnum_def latin1_isspace_def)

lemma long_normalize:
  "normalize_name ucd_latin1 (PStr long_input) = long_input"
  "normalize_name ucd_latin1 (PStr long_name) = long_name"
proof -
  show "normalize_name ucd_latin1 (PStr long_input) = long_input"
    by (rule normalize_name_word) (use latin1_stable_axy in \<open>auto simp: long_sets long_input_def\<close>)
  show "normalize_name ucd_latin1 (PStr long_name) = long_name"
    by (rule normalize_name_word) (use latin1_stable_axy in \<open>auto simp: long_sets long_name_def\<close>)
qed

lemma municipio_nome: "dict_get (municipio ident nome sigla regiao) (ustr ''nome'') d = PStr nome"
  by (simp add: municipio_def dict_get_def ustr_def)

lemma IbgeIndex_init_single_names:
  "normalized_names (IbgeIndex_init db set_iter [m]) = set_iter [name_key db m]"
  by (simp add: IbgeIndex_init_def init_step_def defaultdict_getitem_def name_key_def Let_def)

lemma long_index:
  "name_to_municipios (IbgeIndex_init ucd_latin1 remdups [long_rec]) = [(long_name, [long_rec])]"
  "normalized_names (IbgeIndex_init ucd_latin1 remdups [long_rec]) = [long_name]"
proof -
  have k: "name_key ucd_latin1 long_rec = long_name"
    by (simp add: name_key_def long_rec_def municipio_nome long_normalize)
  show "name_to_municipios (IbgeIndex_init ucd_latin1 remdups [long_rec]) = [(long_name, [long_rec])]"
    by (simp add: IbgeIndex_init_single k)
  show "normalized_names (IbgeIndex_init ucd_latin1 remdups [long_rec]) = [long_name]"
    by (simp add: IbgeIndex_init_single_names k)
qed

lemma long_differ: "long_name \<noteq> long_input"
  by (simp add: long_name_def long_input_def)

lemma long_match:
  "fst (match ucd_latin1 (IbgeIndex_init ucd_latin1 remdups [long_rec]) (PStr long_input))
     = Inr (NAO_ENCONTRADO, [])"
proof -
  let ?self = "IbgeIndex_init ucd_latin1 remdups [long_rec]"
  have a: "map_of (name_to_municipios ?self) (normalize_name ucd_latin1 (PStr long_input)) = None"
    using long_differ by (simp add: long_index long_normalize)
  have "retained (normalize_name ucd_latin1 (PStr long_input)) (normalized_names ?self) (3 / 4) = []"
    by (simp add: retained_def long_index long_normalize long_ratio)
  from match_approx_none[OF a this] show ?thesis by simp
qed

section \<open>The approximate stage and the score of the specification\<close>

text \<open>
  Claim C5, as stated, fails for a word of 200 characters.  The registry has one record,
  whose name \<open>long_name\<close> is the only candidate; the word \<open>long_input\<close> is not a key, and the
  score of the specification for the two is at least 0.75 (it is 0.995).  The group of
  the candidate has exactly one record, and \<open>match\<close> returns \<open>NAO_ENCONTRADO\<close>: the
  character \<open>a\<close> is popular in the word, so the library starts no block.
\<close>

theorem match_approximate_long_counterexample:
  "map_of (name_to_municipios (IbgeIndex_init ucd_latin1 remdups [long_rec]))
      (normalize_name ucd_latin1 (PStr long_input)) = None \<and>
   normalized_names (IbgeIndex_init ucd_latin1 remdups [long_rec]) = [long_name] \<and>
   3 / 4 \<le> spec_score long_name (normalize_name ucd_latin1 (PStr long_input)) \<and>
   map_of (name_to_municipios (IbgeIndex_init ucd_latin1 remdups [long_rec])) long_name
      = Some [long_rec] \<and>
   fst (match ucd_latin1 (IbgeIndex_init ucd_latin1 remdups [long_rec]) (PStr long_input))
      = Inr (NAO_ENCONTRADO, [])"
  using long_differ long_spec_score long_match
  by (simp add: long_index long_normalize)

text \<open>
  Claim C5, amended.  The score is the one the code computes, \<open>ratio\<close>: for a normalized
  input of fewer than 200 characters it is the score of the specification, and for a
  longer one the blocks are started only at characters that are not popular in the
  input.  When the normalized input is not a key of the index and some candidate key
  reaches 0.75 on that score, there is a selected key: a candidate that reaches 0.75 and
  whose score is the highest of all candidates (among candidates of that score, the
  greatest string).  \<open>match\<close> returns \<open>OK\<close> with the record of the group of the selected
  key when that group has exactly one record, and \<open>NAO_ENCONTRADO\<close> with the empty
  record when it has more than one.
\<close>

theorem match_approximate_stage:
  assumes "map_of (name_to_municipios self) (normalize_name db x) = None"
    and "\<exists>c \<in> set (normalized_names self). 3 / 4 \<le> ratio c (normalize_name db x)"
  shows "(\<exists>best \<in> set (normalized_names self).
     3 / 4 \<le> ratio best (normalize_name db x) \<and>
     (\<forall>c \<in> set (normalized_names self).
        ratio c (normalize_name db x) \<le> ratio best (normalize_name db x) \<and>
        (ratio c (normalize_name db x) = ratio best (normalize_name db x) \<longrightarrow> c \<le> best)) \<and>
     (\<forall>m. map_of (name_to_municipios self) best = Some [m] \<longrightarrow>
        fst (match db self x) = Inr (OK, m)) \<and>
     (\<forall>lista. map_of (name_to_municipios self) best = Some lista \<and> 1 < length lista \<longrightarrow>
        fst (match db self x) = Inr (NAO_ENCONTRADO, []))) \<and>
     (length (normalize_name db x) < 200 \<longrightarrow>
        (\<forall>c. ratio c (normalize_name db x) = spec_score c (normalize_name db x)))"
proof -
  let ?key = "normalize_name db x"
  let ?names = "normalized_names self"
  have "retained ?key ?names (3 / 4) \<noteq> []"
    using assms(2) by (auto simp: retained_Nil_iff not_less)
  from match_approx_some[OF assms(1) this] obtain best where
    b: "best \<in> set (retained ?key ?names (3 / 4))"
    and mx: "\<forall>c \<in> set (retained ?key ?names (3 / 4)). (ratio c ?key, c) \<le> (ratio best ?key, best)"
    and m: "match db self x =
       (let (lista, d) = defaultdict_getitem (name_to_municipios self) best;
            self' = self\<lparr> name_to_municipios := d \<rparr>
        in case lista of
             [m] \<Rightarrow> (Inr (OK, m), self')
           | _ \<Rightarrow> (Inr (NAO_ENCONTRADO, []), self'))"
    by blast
  have b1: "best \<in> set ?names" "3 / 4 \<le> ratio best ?key" using b by (simp_all add: retained_iff)
  have b2: "ratio c ?key \<le> ratio best ?key \<and> (ratio c ?key = ratio best ?key \<longrightarrow> c \<le> best)"
    if "c \<in> set ?names" for c
  proof (cases "3 / 4 \<le> ratio c ?key")
    case True
    with that mx have "(ratio c ?key, c) \<le> (ratio best ?key, best)" by (simp add: retained_iff)
    then show ?thesis by (auto simp: less_eq_prod_def)
  next
    case False
    with b1(2) show ?thesis by auto
  qed
  have b3: "fst (match db self x) = Inr (OK, r)" if "map_of (name_to_municipios self) best = Some [r]" for r
    unfolding m by (simp add: defaultdict_getitem_Some[OF that])
  have b4: "fst (match db self x) = Inr (NAO_ENCONTRADO, [])"
    if "map_of (name_to_municipios self) best = Some lista" "1 < length lista" for lista
  proof -
    from that(2) obtain a b rest where "lista = a # b # rest"
      by (cases lista; cases "tl lista") auto
    then show ?thesis unfolding m by (simp add: defaultdict_getitem_Some[OF that(1)])
  qed
  from b1 b2 b3 b4 have sel: "\<exists>best \<in> set ?names.
     3 / 4 \<le> ratio best ?key \<and>
     (\<forall>c \<in> set ?names.
        ratio c ?key \<le> ratio best ?key \<and> (ratio c ?key = ratio best ?key \<longrightarrow> c \<le> best)) \<and>
     (\<forall>m. map_of (name_to_municipios self) best = Some [m] \<longrightarrow>
        fst (match db self x) = Inr (OK, m)) \<and>
     (\<forall>lista. map_of (name_to_municipios self) best = Some lista \<and> 1 < length lista \<longrightarrow>
        fst (match db self x) = Inr (NAO_ENCONTRADO, []))"
    by blast
  have "length ?key < 200 \<longrightarrow> (\<forall>c. ratio c ?key = spec_score c ?key)"
    by (simp add: ratio_short)
  with sel show ?thesis by (rule conjI)
qed

theorem match_approximate_stage_witness:
  "map_of (name_to_municipios (IbgeIndex_init ucd_latin1 remdups registry3))
      (normalize_name ucd_latin1 curitba) = None \<and>
   3 / 4 \<le> ratio (ustr ''curitiba'') (normalize_name ucd_latin1 curitba) \<and>
   ratio (ustr ''curitiba'') (normalize_name ucd_latin1 curitba)
     = spec_score (ustr ''curitiba'') (normalize_name ucd_latin1 curitba) \<and>
   fst (match ucd_latin1 (IbgeIndex_init ucd_latin1 remdups registry3) curitba) = Inr (OK, curitiba)"
proof -
  let ?self = "IbgeIndex_init ucd_latin1 remdups registry3"
  have a: "map_of (name_to_municipios ?self) (normalize_name ucd_latin1 curitba) = None"
    by (simp add: registry3_eval)
  have r: "3 / 4 \<le> ratio (ustr ''curitiba'') (normalize_name ucd_latin1 curitba)"
    by (simp add: registry3_eval ratio_eval)
  then have b: "\<exists>c \<in> set (normalized_names ?self). 3 / 4 \<le> ratio c (normalize_name ucd_latin1 curitba)"
    by (simp add: registry3_eval)
  have len: "length (normalize_name ucd_latin1 curitba) < 200"
    by (simp add: registry3_eval ustr_def)
  from match_approximate_stage[OF a b] len
  have s: "ratio (ustr ''curitiba'') (normalize_name ucd_latin1 curitba)
     = spec_score (ustr ''curitiba'') (normalize_name ucd_latin1 curitba)" by blast
  from match_approximate_stage[OF a b] obtain best where
    best: "best \<in> set (normalized_names ?self)"
      "3 / 4 \<le> ratio best (normalize_name ucd_latin1 curitba)"
      "\<forall>m. map_of (name_to_municipios ?self) best = Some [m] \<longrightarrow>
         fst (match ucd_latin1 ?self curitba) = Inr (OK, m)"
    by blast
  from best(1,2) have "best = ustr ''curitiba''"
    by (auto simp: registry3_eval ratio_eval)
  with best(3) have "fst (match ucd_latin1 ?self curitba) = Inr (OK, curitiba)"
    by (simp add: registry3_eval)
  with a r s show ?thesis by blast
qed

text \<open>
  Claim C4, as stated, fails in two ways.  First, \<open>match\<close> also returns \<open>NAO_ENCONTRADO\<close>
  when a candidate reaches the score 0.75 but its group has two records: the input
  \<open>Curitba\<close> is not a key, the only candidate \<open>curitiba\<close> has the score 14/15, its group
  has two records, and the result is \<open>NAO_ENCONTRADO\<close>.  Second, the score the code
  computes is not the score of the specification on a word of 200 characters or more:
  for the word \<open>long_input\<close> the only candidate has the score of the specification 0.995,
  its group has one record, and the result is \<open>NAO_ENCONTRADO\<close>.
\<close>

theorem match_not_found_counterexample:
  "(map_of (name_to_municipios (IbgeIndex_init ucd_latin1 remdups twins))
      (normalize_name ucd_latin1 curitba) = None \<and>
    ustr ''curitiba'' \<in> set (normalized_names (IbgeIndex_init ucd_latin1 remdups twins)) \<and>
    3 / 4 \<le> spec_score (ustr ''curitiba'') (normalize_name ucd_latin1 curitba) \<and>
    fst (match ucd_latin1 (IbgeIndex_init ucd_latin1 remdups twins) curitba)
      = Inr (NAO_ENCONTRADO, [])) \<and>
   (map_of (name_to_municipios (IbgeIndex_init ucd_latin1 remdups [long_rec]))
      (normalize_name ucd_latin1 (PStr long_input)) = None \<and>
    long_name \<in> set (normalized_names (IbgeIndex_init ucd_latin1 remdups [long_rec])) \<and>
    3 / 4 \<le> spec_score long_name (normalize_name ucd_latin1 (PStr long_input)) \<and>
    fst (match ucd_latin1 (IbgeIndex_init ucd_latin1 remdups [long_rec]) (PStr long_input))
      = Inr (NAO_ENCONTRADO, []))"
proof -
  have "fst (match ucd_latin1 (IbgeIndex_init ucd_latin1 remdups twins) curitba)
     = Inr (NAO_ENCONTRADO, [])" by code_simp
  moreover have "length (ustr ''curitba'') < 200" by (simp add: ustr_def)
  then have "spec_score (ustr ''curitiba'') (ustr ''curitba'') = ratio (ustr ''curitiba'') (ustr ''curitba'')"
    by (rule ratio_short[symmetric])
  then have "spec_score (ustr ''curitiba'') (ustr ''curitba'') = 14 / 15"
    by (simp only: ratio_eval)
  ultimately have "map_of (name_to_municipios (IbgeIndex_init ucd_latin1 remdups twins))
      (normalize_name ucd_latin1 curitba) = None \<and>
    ustr ''curitiba'' \<in> set (normalized_names (IbgeIndex_init ucd_latin1 remdups twins)) \<and>
    3 / 4 \<le> spec_score (ustr ''curitiba'') (normalize_name ucd_latin1 curitba) \<and>
    fst (match ucd_latin1 (IbgeIndex_init ucd_latin1 remdups twins) curitba)
      = Inr (NAO_ENCONTRADO, [])"
    by (simp add: registry3_eval twins_eval)
  moreover have "map_of (name_to_municipios (IbgeIndex_init ucd_latin1 remdups [long_rec]))
      (normalize_name ucd_latin1 (PStr long_input)) = None \<and>
    long_name \<in> set (normalized_names (IbgeIndex_init ucd_latin1 remdups [long_rec])) \<and>
    3 / 4 \<le> spec_score long_name (normalize_name ucd_latin1 (PStr long_input)) \<and>
    fst (match ucd_latin1 (IbgeIndex_init ucd_latin1 remdups [long_rec]) (PStr long_input))
      = Inr (NAO_ENCONTRADO, [])"
    using long_differ long_spec_score long_match by (simp add: long_index long_normalize)
  ultimately show ?thesis by (rule conjI)
qed

text \<open>
  Claim C4, amended.  When the normalized input is not a key of the index, \<open>match\<close> does
  not raise; it returns \<open>NAO_ENCONTRADO\<close> with the empty record when no candidate key
  reaches the score 0.75, and otherwise only when the group of a candidate with the
  highest score is not a single record.  The score is the one the code computes: for a
  normalized input of fewer than 200 characters it is the score of the specification,
  \<open>2 * M / T\<close> with \<open>T\<close> the combined length and \<open>M\<close> the total size of the blocks found by
  taking a longest common contiguous block and going on to its left and to its right
  (the block taken is a common block, and no common block is longer); for a longer input
  the blocks are started only at characters that are not popular in the input.
\<close>

theorem match_not_found:
  assumes "map_of (name_to_municipios self) (normalize_name db x) = None"
  shows "(\<exists>res. fst (match db self x) = Inr res) \<and>
     ((\<forall>c \<in> set (normalized_names self). ratio c (normalize_name db x) < 3 / 4) \<longrightarrow>
        fst (match db self x) = Inr (NAO_ENCONTRADO, [])) \<and>
     (\<forall>r. fst (match db self x) = Inr (NAO_ENCONTRADO, r) \<longrightarrow>
        r = [] \<and>
        ((\<forall>c \<in> set (normalized_names self). ratio c (normalize_name db x) < 3 / 4) \<or>
         (\<exists>best \<in> set (normalized_names self).
            3 / 4 \<le> ratio best (normalize_name db x) \<and>
            (\<forall>c \<in> set (normalized_names self).
               ratio c (normalize_name db x) \<le> ratio best (normalize_name db x)) \<and>
            (\<forall>m. map_of (name_to_municipios self) best \<noteq> Some [m])))) \<and>
     (length (normalize_name db x) < 200 \<longrightarrow>
        (\<forall>c. ratio c (normalize_name db x) = spec_score c (normalize_name db x))) \<and>
     (\<forall>a b. spec_score a b =
        (if length a + length b = 0 then 1
         else 2 * of_nat (matches_total (\<lambda>_. False) a b) / of_nat (length a + length b)) \<and>
        valid_block a b (find_longest_match (\<lambda>_. False) a b) \<and>
        (\<forall>i j k. valid_block a b (i, j, k) \<longrightarrow>
           k \<le> snd (snd (find_longest_match (\<lambda>_. False) a b))))"
proof -
  let ?key = "normalize_name db x"
  let ?names = "normalized_names self"
  have short: "length ?key < 200 \<longrightarrow> (\<forall>c. ratio c ?key = spec_score c ?key)"
    by (simp add: ratio_short)
  have spec: "\<forall>a b. spec_score a b =
        (if length a + length b = 0 then 1
         else 2 * of_nat (matches_total (\<lambda>_. False) a b) / of_nat (length a + length b)) \<and>
        valid_block a b (find_longest_match (\<lambda>_. False) a b) \<and>
        (\<forall>i j k. valid_block a b (i, j, k) \<longrightarrow>
           k \<le> snd (snd (find_longest_match (\<lambda>_. False) a b)))"
    using find_longest_match_valid find_longest_match_longest
    by (simp add: spec_score_def calculate_ratio_def)
  have main: "(\<exists>res. fst (match db self x) = Inr res) \<and>
     ((\<forall>c \<in> set ?names. ratio c ?key < 3 / 4) \<longrightarrow>
        fst (match db self x) = Inr (NAO_ENCONTRADO, [])) \<and>
     (\<forall>r. fst (match db self x) = Inr (NAO_ENCONTRADO, r) \<longrightarrow>
        r = [] \<and>
        ((\<forall>c \<in> set ?names. ratio c ?key < 3 / 4) \<or>
         (\<exists>best \<in> set ?names. 3 / 4 \<le> ratio best ?key \<and>
            (\<forall>c \<in> set ?names. ratio c ?key \<le> ratio best ?key) \<and>
            (\<forall>m. map_of (name_to_municipios self) best \<noteq> Some [m]))))"
  proof (cases "retained ?key ?names (3 / 4) = []")
    case True
    then have "match db self x = (Inr (NAO_ENCONTRADO, []), self)"
      by (rule match_approx_none[OF assms])
    moreover from True have "\<forall>c \<in> set ?names. ratio c ?key < 3 / 4"
      by (simp add: retained_Nil_iff)
    ultimately show ?thesis by simp
  next
    case False
    then have some: "\<not> (\<forall>c \<in> set ?names. ratio c ?key < 3 / 4)"
      by (simp add: retained_Nil_iff)
    from match_approx_some[OF assms False] obtain best where
      b: "best \<in> set (retained ?key ?names (3 / 4))"
      and mx: "\<forall>c \<in> set (retained ?key ?names (3 / 4)). (ratio c ?key, c) \<le> (ratio best ?key, best)"
      and m: "match db self x =
         (let (lista, d) = defaultdict_getitem (name_to_municipios self) best;
              self' = self\<lparr> name_to_municipios := d \<rparr>
          in case lista of
               [m] \<Rightarrow> (Inr (OK, m), self')
             | _ \<Rightarrow> (Inr (NAO_ENCONTRADO, []), self'))"
      by blast
    have b1: "best \<in> set ?names" "3 / 4 \<le> ratio best ?key" using b by (simp_all add: retained_iff)
    have b2: "ratio c ?key \<le> ratio best ?key" if "c \<in> set ?names" for c
    proof (cases "3 / 4 \<le> ratio c ?key")
      case True
      with that mx have "(ratio c ?key, c) \<le> (ratio best ?key, best)" by (simp add: retained_iff)
      then show ?thesis by (auto simp: less_eq_prod_def)
    next
      case False
      with b1(2) show ?thesis by auto
    qed
    obtain lista d where g: "defaultdict_getitem (name_to_municipios self) best = (lista, d)"
      by (cases "defaultdict_getitem (name_to_municipios self) best")
    have res: "fst (match db self x) =
        (case lista of [m] \<Rightarrow> Inr (OK, m) | _ \<Rightarrow> Inr (NAO_ENCONTRADO, []))"
      unfolding m g by (simp split: list.splits)
    have ex: "\<exists>res. fst (match db self x) = Inr res"
      unfolding res by (simp split: list.splits)
    have nf: "r = [] \<and> (\<forall>m. map_of (name_to_municipios self) best \<noteq> Some [m])"
      if "fst (match db self x) = Inr (NAO_ENCONTRADO, r)" for r
    proof -
      from that have l: "r = [] \<and> (\<forall>m. lista \<noteq> [m])"
        unfolding res by (auto split: list.splits)
      have "map_of (name_to_municipios self) best \<noteq> Some [m]" for m
        using g l by (auto simp: defaultdict_getitem_def)
      with l show ?thesis by blast
    qed
    have "\<forall>r. fst (match db self x) = Inr (NAO_ENCONTRADO, r) \<longrightarrow>
        r = [] \<and>
        ((\<forall>c \<in> set ?names. ratio c ?key < 3 / 4) \<or>
         (\<exists>best \<in> set ?names. 3 / 4 \<le> ratio best ?key \<and>
            (\<forall>c \<in> set ?names. ratio c ?key \<le> ratio best ?key) \<and>
            (\<forall>m. map_of (name_to_municipios self) best \<noteq> Some [m])))"
      using nf b1 b2 by blast
    with ex some show ?thesis by blast
  qed
  from main short spec show ?thesis by (intro conjI) blast+
qed

theorem match_not_found_witness:
  "map_of (name_to_municipios (IbgeIndex_init ucd_latin1 remdups registry3))
      (normalize_name ucd_latin1 (PStr (ustr ''Xyz''))) = None \<and>
   ratio (ustr ''curitiba'') (normalize_name ucd_latin1 (PStr (ustr ''Xyz''))) < 3 / 4 \<and>
   ratio (ustr ''santo andre'') (normalize_name ucd_latin1 (PStr (ustr ''Xyz''))) < 3 / 4 \<and>
   fst (match ucd_latin1 (IbgeIndex_init ucd_latin1 remdups registry3) (PStr (ustr ''Xyz'')))
     = Inr (NAO_ENCONTRADO, [])"
proof -
  let ?self = "IbgeIndex_init ucd_latin1 remdups registry3"
  have n: "normalize_name ucd_latin1 (PStr (ustr ''Xyz'')) = ustr ''xyz''" by code_simp
  have a: "map_of (name_to_municipios ?self) (normalize_name ucd_latin1 (PStr (ustr ''Xyz''))) = None"
    unfolding n by code_simp
  have r: "ratio (ustr ''curitiba'') (ustr ''xyz'') = 0" "ratio (ustr ''santo andre'') (ustr ''xyz'') = 0"
    by code_simp+
  have "\<forall>c \<in> set (normalized_names ?self). ratio c (normalize_name ucd_latin1 (PStr (ustr ''Xyz''))) < 3 / 4"
    by (simp add: registry3_eval n r)
  with match_not_found[OF a] have "fst (match ucd_latin1 ?self (PStr (ustr ''Xyz''))) = Inr (NAO_ENCONTRADO, [])"
    by blast
  with a show ?thesis by (simp add: n r)
qed

end
